theory Spec2Isabelle
  imports Main "HOL-Library.Sublist" "HOL-Library.Monad_Syntax"
begin

section \<open>Python values\<close>

text \<open>
  The values the pipeline handles: decoded JSON documents, cells of a table, and the
  results of the library parsers. A Python \<open>str\<close> is modelled as the list of its code
  points, for code points below 256. The only float modelled is NaN (the missing-value
  marker of a table); numbers with a fraction are outside the model. A dict keeps its
  insertion order, so it is an association list. \<open>POther t s\<close> stands for an object of
  any other type (a tuple, a set, bytes, ...), of which the code only ever uses the truth
  value \<open>t\<close> and the text \<open>s\<close> that \<open>str()\<close> gives.
\<close>

datatype pyval =
    PNone
  | PBool bool
  | PInt int
  | PNaN
  | PStr string
  | PList "pyval list"
  | PDict "(string \<times> pyval) list"
  | POther bool string

text \<open>Truth value testing (\<open>if x:\<close>, \<open>not x\<close>).\<close>

fun py_truthy :: "pyval \<Rightarrow> bool" where
  "py_truthy PNone = False"
| "py_truthy (PBool b) = b"
| "py_truthy (PInt i) = (i \<noteq> 0)"
| "py_truthy PNaN = True"
| "py_truthy (PStr s) = (s \<noteq> [])"
| "py_truthy (PList xs) = (xs \<noteq> [])"
| "py_truthy (PDict kvs) = (kvs \<noteq> [])"
| "py_truthy (POther t s) = t"

text \<open>\<open>isinstance(v, (list, dict))\<close>.\<close>

fun is_complex :: "pyval \<Rightarrow> bool" where
  "is_complex (PList xs) = True"
| "is_complex (PDict kvs) = True"
| "is_complex v = False"

subsection \<open>Decimal text of integers\<close>

definition digit_char :: "nat \<Rightarrow> char" where
  "digit_char d = char_of (48 + d)"

function digits_of :: "nat \<Rightarrow> string" where
  "digits_of n = (if n < 10 then [digit_char n] else digits_of (n div 10) @ [digit_char (n mod 10)])"
  by pat_completeness auto
termination
  by (relation "measure id") auto

declare digits_of.simps [simp del]

definition show_int :: "int \<Rightarrow> string" where
  "show_int i = (if i < 0 then CHR ''-'' # digits_of (nat (- i)) else digits_of (nat i))"

subsection \<open>\<open>str()\<close> and f-string formatting\<close>

text \<open>
  \<open>py_str rp v\<close> is \<open>str(v)\<close>, which is also what \<open>f"{v}"\<close> inserts. The text of a list
  or a dict is Python's \<open>repr\<close>, which the repository does not define: it is the
  parameter \<open>rp\<close>, and every theorem holds for any \<open>rp\<close>.
\<close>

fun py_str :: "(pyval \<Rightarrow> string) \<Rightarrow> pyval \<Rightarrow> string" where
  "py_str rp PNone = ''None''"
| "py_str rp (PBool b) = (if b then ''True'' else ''False'')"
| "py_str rp (PInt i) = show_int i"
| "py_str rp PNaN = ''nan''"
| "py_str rp (PStr s) = s"
| "py_str rp (PList xs) = rp (PList xs)"
| "py_str rp (PDict kvs) = rp (PDict kvs)"
| "py_str rp (POther t s) = s"

subsection \<open>Dictionaries\<close>

text \<open>
  \<open>d[k] = v\<close> on an insertion-ordered dict: an existing key keeps its place and takes the
  new value, a new key goes last.
\<close>

fun dict_set :: "(string \<times> 'v) list \<Rightarrow> string \<Rightarrow> 'v \<Rightarrow> (string \<times> 'v) list" where
  "dict_set [] k v = [(k, v)]"
| "dict_set ((k', v') # kvs) k v =
     (if k' = k then (k, v) # kvs else (k', v') # dict_set kvs k v)"

text \<open>
  \<open>x.get(k, default)\<close>: only a dict has the method; on anything else Python raises
  AttributeError, which is \<open>None\<close> here.
\<close>

fun py_get :: "pyval \<Rightarrow> string \<Rightarrow> pyval \<Rightarrow> pyval option" where
  "py_get (PDict kvs) k dflt = Some (case map_of kvs k of None \<Rightarrow> dflt | Some v \<Rightarrow> v)"
| "py_get v k dflt = None"

text \<open>\<open>x.items()\<close>: AttributeError on anything but a dict.\<close>

fun py_items :: "pyval \<Rightarrow> (string \<times> pyval) list option" where
  "py_items (PDict kvs) = Some kvs"
| "py_items v = None"

text \<open>
  \<open>for item in x\<close>: a list gives its elements, a dict its keys, a string its characters;
  None, a bool, a number raise TypeError.
\<close>

fun py_iter :: "pyval \<Rightarrow> pyval list option" where
  "py_iter (PList xs) = Some xs"
| "py_iter (PDict kvs) = Some (map (\<lambda>(k, v). PStr k) kvs)"
| "py_iter (PStr s) = Some (map (\<lambda>c. PStr [c]) s)"
| "py_iter v = None"

text \<open>\<open>needle in hay\<close> on strings: substring test.\<close>

fun py_in_str :: "string \<Rightarrow> string \<Rightarrow> bool" where
  "py_in_str needle [] = (needle = [])"
| "py_in_str needle (c # cs) = (prefix needle (c # cs) \<or> py_in_str needle cs)"

text \<open>
  \<open>k in x\<close> for a string \<open>k\<close>: key test on a dict, element test on a list, substring test
  on a string, TypeError on None, a bool or a number.
\<close>

fun py_contains :: "pyval \<Rightarrow> string \<Rightarrow> bool option" where
  "py_contains (PDict kvs) k = Some (k \<in> set (map fst kvs))"
| "py_contains (PList xs) k = Some (PStr k \<in> set xs)"
| "py_contains (PStr s) k = Some (py_in_str k s)"
| "py_contains v k = None"

text \<open>\<open>x[k]\<close> for a string \<open>k\<close>: KeyError or TypeError are \<open>None\<close>.\<close>

fun py_getitem :: "pyval \<Rightarrow> string \<Rightarrow> pyval option" where
  "py_getitem (PDict kvs) k = map_of kvs k"
| "py_getitem v k = None"

text \<open>A loop whose body may raise: the first exception ends it.\<close>

fun foldM :: "('s \<Rightarrow> 'a \<Rightarrow> 's option) \<Rightarrow> 's \<Rightarrow> 'a list \<Rightarrow> 's option" where
  "foldM f s [] = Some s"
| "foldM f s (x # xs) = (case f s x of None \<Rightarrow> None | Some s' \<Rightarrow> foldM f s' xs)"

section \<open>\<open>json.dumps\<close>\<close>

text \<open>
  The encoder with its defaults (\<open>ensure_ascii\<close>, separators \<open>", "\<close> and \<open>": "\<close>): inside
  a string the quote, the backslash and the five short escapes are written with a
  backslash, every other character outside the range from space to tilde as
  \<open>\u00XX\<close> with lower-case hex digits. An object of another type raises TypeError
  (\<open>None\<close>).
\<close>

definition hexdigit :: "nat \<Rightarrow> char" where
  "hexdigit k = (if k < 10 then char_of (48 + k) else char_of (87 + k))"

definition json_escape_char :: "char \<Rightarrow> string" where
  "json_escape_char c =
     (if c = CHR 0x22 then [CHR 0x5C, CHR 0x22]
      else if c = CHR 0x5C then [CHR 0x5C, CHR 0x5C]
      else if c = CHR 0x0A then [CHR 0x5C, CHR ''n'']
      else if c = CHR 0x0D then [CHR 0x5C, CHR ''r'']
      else if c = CHR 0x09 then [CHR 0x5C, CHR ''t'']
      else if c = CHR 0x08 then [CHR 0x5C, CHR ''b'']
      else if c = CHR 0x0C then [CHR 0x5C, CHR ''f'']
      else if (of_char c :: nat) < 32 \<or> 126 < (of_char c :: nat)
        then [CHR 0x5C, CHR ''u'', CHR ''0'', CHR ''0'',
              hexdigit ((of_char c :: nat) div 16), hexdigit ((of_char c :: nat) mod 16)]
      else [c])"

definition json_quote :: "string \<Rightarrow> string" where
  "json_quote s = CHR 0x22 # concat (map json_escape_char s) @ [CHR 0x22]"

fun join :: "string \<Rightarrow> string list \<Rightarrow> string" where
  "join sep [] = []"
| "join sep [x] = x"
| "join sep (x # y # ys) = x @ sep @ join sep (y # ys)"

fun json_dumps :: "pyval \<Rightarrow> string option" where
  "json_dumps PNone = Some ''null''"
| "json_dumps (PBool b) = Some (if b then ''true'' else ''false'')"
| "json_dumps (PInt i) = Some (show_int i)"
| "json_dumps PNaN = Some ''NaN''"
| "json_dumps (PStr s) = Some (json_quote s)"
| "json_dumps (PList xs) =
     map_option (\<lambda>ss. ''['' @ join '', '' ss @ '']'') (those (map json_dumps xs))"
| "json_dumps (PDict kvs) =
     map_option (\<lambda>ss. ''{'' @ join '', '' ss @ ''}'')
       (those (map (\<lambda>(k, v). map_option (\<lambda>s. json_quote k @ '': '' @ s) (json_dumps v)) kvs))"
| "json_dumps (POther t s) = None"

section \<open>\<open>json.loads\<close> on arrays of strings\<close>

text \<open>
  The decoder is modelled on the texts the pipeline itself writes and a little beyond: a
  JSON array whose elements are strings, with the whitespace JSON allows around the
  tokens. Inside a string it reads the short escapes and \<open>\u00XX\<close>, and refuses an
  unescaped control character, as the library does. On every other text
  \<open>json_loads_str_array\<close> is \<open>None\<close>: there the library function is not modelled here.
\<close>

definition hexval :: "char \<Rightarrow> nat option" where
  "hexval c =
     (let n = (of_char c :: nat) in
      if 48 \<le> n \<and> n \<le> 57 then Some (n - 48)
      else if 97 \<le> n \<and> n \<le> 102 then Some (n - 87)
      else if 65 \<le> n \<and> n \<le> 70 then Some (n - 55)
      else None)"

definition unescape :: "char \<Rightarrow> char option" where
  "unescape e =
     (if e = CHR 0x22 then Some (CHR 0x22)
      else if e = CHR 0x5C then Some (CHR 0x5C)
      else if e = CHR ''/'' then Some (CHR ''/'')
      else if e = CHR ''b'' then Some (CHR 0x08)
      else if e = CHR ''f'' then Some (CHR 0x0C)
      else if e = CHR ''n'' then Some (CHR 0x0A)
      else if e = CHR ''r'' then Some (CHR 0x0D)
      else if e = CHR ''t'' then Some (CHR 0x09)
      else None)"

definition cons_result :: "char \<Rightarrow> (string \<times> string) option \<Rightarrow> (string \<times> string) option" where
  "cons_result c res = map_option (\<lambda>(s, r). (c # s, r)) res"

fun scan_string :: "string \<Rightarrow> (string \<times> string) option" where
  "scan_string [] = None"
| "scan_string (c # cs) =
     (if c = CHR 0x22 then Some ([], cs)
      else if c = CHR 0x5C then
        (case cs of
           [] \<Rightarrow> None
         | e # cs1 \<Rightarrow>
             if e = CHR ''u'' then
               (case cs1 of
                  h1 # h2 # h3 # h4 # cs2 \<Rightarrow>
                    (if h1 = CHR ''0'' \<and> h2 = CHR ''0'' then
                       (case (hexval h3, hexval h4) of
                          (Some a, Some b) \<Rightarrow> cons_result (char_of (16 * a + b)) (scan_string cs2)
                        | _ \<Rightarrow> None)
                     else None)
                | _ \<Rightarrow> None)
             else (case unescape e of
                     None \<Rightarrow> None
                   | Some d \<Rightarrow> cons_result d (scan_string cs1)))
      else if (of_char c :: nat) < 32 then None
      else cons_result c (scan_string cs))"

definition is_json_ws :: "char \<Rightarrow> bool" where
  "is_json_ws c = (c = CHR '' '' \<or> c = CHR 0x09 \<or> c = CHR 0x0A \<or> c = CHR 0x0D)"

definition skip_ws :: "string \<Rightarrow> string" where
  "skip_ws s = dropWhile is_json_ws s"

subsection \<open>The scanner consumes its input\<close>

lemma cons_result_Some:
  "cons_result c res = Some (s, r) \<Longrightarrow> \<exists>s'. res = Some (s', r)"
  by (cases res) (auto simp: cons_result_def)

lemma scan_string_shorter: "scan_string cs = Some (s, r) \<Longrightarrow> length r < length cs"
proof (induction cs arbitrary: s r rule: scan_string.induct)
  case 1
  then show ?case by simp
next
  case (2 c cs)
  show ?case
  proof (cases "c = CHR 0x22")
    case True
    with 2 show ?thesis by simp
  next
    case nq: False
    show ?thesis
    proof (cases "c = CHR 0x5C")
      case bs: True
      show ?thesis
      proof (cases cs)
        case Nil
        with 2 nq bs show ?thesis by simp
      next
        case (Cons e cs1)
        show ?thesis
        proof (cases "e = CHR ''u''")
          case u: True
          from "2.prems" nq bs Cons u obtain h1 h2 h3 h4 cs2 a b where
            cs1: "cs1 = h1 # h2 # h3 # h4 # cs2" and h: "h1 = CHR ''0''" "h2 = CHR ''0''"
            and hv: "hexval h3 = Some a" "hexval h4 = Some b"
            and res: "cons_result (char_of (16 * a + b)) (scan_string cs2) = Some (s, r)"
            by (auto split: list.splits option.splits if_splits)
          from cons_result_Some [OF res] obtain s' where "scan_string cs2 = Some (s', r)" ..
          from "2.IH"(1) [OF nq bs Cons u cs1 refl refl refl conjI [OF h] refl hv this]
          have "length r < length cs2" .
          with Cons cs1 show ?thesis by simp
        next
          case nu: False
          from "2.prems" nq bs Cons nu obtain d where
            d: "unescape e = Some d" and res: "cons_result d (scan_string cs1) = Some (s, r)"
            by (auto split: option.splits)
          from cons_result_Some [OF res] obtain s' where "scan_string cs1 = Some (s', r)" ..
          from "2.IH"(2) [OF nq bs Cons nu d this] have "length r < length cs1" .
          with Cons show ?thesis by simp
        qed
      qed
    next
      case nbs: False
      from "2.prems" nq nbs have ge: "\<not> (of_char c :: nat) < 32"
        and res: "cons_result c (scan_string cs) = Some (s, r)"
        by (auto split: if_splits)
      from cons_result_Some [OF res] obtain s' where "scan_string cs = Some (s', r)" ..
      from "2.IH"(3) [OF nq nbs ge this] show ?thesis by simp
    qed
  qed
qed

lemma length_skip_ws: "length (skip_ws s) \<le> length s"
  by (simp add: skip_ws_def length_dropWhile_le)

text \<open>The elements of a non-empty array, up to and including the closing bracket.\<close>

function scan_items :: "string \<Rightarrow> (string list \<times> string) option" where
  "scan_items s =
     (case s of
        [] \<Rightarrow> None
      | c # cs \<Rightarrow>
          if c \<noteq> CHR 0x22 then None
          else (case scan_string cs of
                  None \<Rightarrow> None
                | Some (x, r) \<Rightarrow>
                    (case skip_ws r of
                       [] \<Rightarrow> None
                     | d # r2 \<Rightarrow>
                         if d = CHR '']'' then Some ([x], r2)
                         else if d = CHR '','' then
                           (case scan_items (skip_ws r2) of
                              None \<Rightarrow> None
                            | Some (xs, rest) \<Rightarrow> Some (x # xs, rest))
                         else None)))"
  by pat_completeness auto
termination
proof (relation "measure length", goal_cases)
  case 1
  then show ?case by simp
next
  case (2 s c cs x2 x r d r2)
  have "length (skip_ws r2) \<le> length r2" by (rule length_skip_ws)
  also have "length r2 < length (skip_ws r)" using 2 by simp
  also have "\<dots> \<le> length r" by (rule length_skip_ws)
  also have "\<dots> < length cs" using 2 scan_string_shorter [of cs x r] by simp
  finally show ?case using 2 by simp
qed

declare scan_items.simps [simp del]

definition json_loads_str_array :: "string \<Rightarrow> pyval option" where
  "json_loads_str_array s =
     (case skip_ws s of
        [] \<Rightarrow> None
      | c # s1 \<Rightarrow>
          if c \<noteq> CHR ''['' then None
          else (case skip_ws s1 of
                  [] \<Rightarrow> None
                | d # s2 \<Rightarrow>
                    if d = CHR '']'' then (if skip_ws s2 = [] then Some (PList []) else None)
                    else (case scan_items (d # s2) of
                            None \<Rightarrow> None
                          | Some (xs, rest) \<Rightarrow>
                              if skip_ws rest = [] then Some (PList (map PStr xs)) else None)))"

subsection \<open>Decoding what the encoder wrote\<close>

lemma hexval_hexdigit: "k < 16 \<Longrightarrow> hexval (hexdigit k) = Some k"
  by (auto simp: hexval_def hexdigit_def Let_def)

lemma char_split: "char_of (16 * ((of_char c :: nat) div 16) + (of_char c :: nat) mod 16) = c"
  by simp

lemma of_char_lt: "(of_char c :: nat) < 256"
  by (cases c) simp

lemma scan_escape_char:
  "scan_string (json_escape_char c @ rest) = cons_result c (scan_string rest)"
proof -
  have d: "(of_char c :: nat) div 16 < 16" using of_char_lt [of c] by arith
  have m: "(of_char c :: nat) mod 16 < 16" by simp
  show ?thesis
    using hexval_hexdigit [OF d] hexval_hexdigit [OF m] char_split [of c]
    by (simp add: json_escape_char_def unescape_def)
qed

lemma scan_escaped:
  "scan_string (concat (map json_escape_char s) @ CHR 0x22 # rest) = Some (s, rest)"
  by (induction s) (simp_all add: scan_escape_char cons_result_def)

lemma skip_ws_simps [simp]:
  "skip_ws [] = []"
  "skip_ws (CHR '' '' # s) = skip_ws s"
  "skip_ws (CHR 0x22 # s) = CHR 0x22 # s"
  "skip_ws (CHR '']'' # s) = CHR '']'' # s"
  "skip_ws (CHR '','' # s) = CHR '','' # s"
  "skip_ws (CHR ''['' # s) = CHR ''['' # s"
  by (simp_all add: skip_ws_def is_json_ws_def)

lemma skip_ws_quote: "skip_ws (json_quote y @ t) = json_quote y @ t"
  by (simp add: json_quote_def)

lemma skip_ws_quoted:
  "skip_ws (join sep (map json_quote (y # ys)) @ t) = join sep (map json_quote (y # ys)) @ t"
  by (cases ys) (simp_all add: skip_ws_quote)

lemma scan_items_quote:
  "scan_items (json_quote x @ t) =
     (case skip_ws t of
        [] \<Rightarrow> None
      | d # r2 \<Rightarrow>
          if d = CHR '']'' then Some ([x], r2)
          else if d = CHR '','' then
            (case scan_items (skip_ws r2) of
               None \<Rightarrow> None
             | Some (xs, rest) \<Rightarrow> Some (x # xs, rest))
          else None)"
  unfolding json_quote_def
  by (subst scan_items.simps) (simp add: scan_escaped)

lemma scan_items_quoted:
  "xs \<noteq> [] \<Longrightarrow> scan_items (join '', '' (map json_quote xs) @ CHR '']'' # rest) = Some (xs, rest)"
proof (induction xs)
  case Nil
  then show ?case by simp
next
  case (Cons x xs)
  show ?case
  proof (cases xs)
    case Nil
    then show ?thesis by (simp add: scan_items_quote)
  next
    case (Cons y ys)
    with Cons.IH have ih: "scan_items (join '', '' (map json_quote (y # ys)) @ CHR '']'' # rest) = Some (y # ys, rest)"
      by simp
    have "scan_items (join '', '' (map json_quote (x # y # ys)) @ CHR '']'' # rest)
        = scan_items (json_quote x @ (CHR '','' # CHR '' '' # join '', '' (map json_quote (y # ys)) @ CHR '']'' # rest))"
      by simp
    also have "\<dots> = Some (x # y # ys, rest)"
      by (simp only: scan_items_quote skip_ws_simps skip_ws_quoted ih list.case if_True if_False
            option.case prod.case char.inject) simp
    finally show ?thesis using Cons by simp
  qed
qed

lemma those_dumps_strs: "those (map (json_dumps \<circ> PStr) xs) = Some (map json_quote xs)"
  by (induction xs) simp_all

lemma json_dumps_strs:
  "json_dumps (PList (map PStr xs)) = Some (''['' @ join '', '' (map json_quote xs) @ '']'')"
  by (simp add: those_dumps_strs)

lemma json_roundtrip_strs:
  "json_loads_str_array (''['' @ join '', '' (map json_quote xs) @ '']'') = Some (PList (map PStr xs))"
proof (cases xs)
  case Nil
  then show ?thesis by (simp add: json_loads_str_array_def)
next
  case (Cons y ys)
  have "scan_items (join '', '' (map json_quote (y # ys)) @ CHR '']'' # []) = Some (y # ys, [])"
    by (rule scan_items_quoted) simp
  moreover obtain c t where ct: "join '', '' (map json_quote (y # ys)) @ '']'' = c # t" "c \<noteq> CHR '']''"
    by (cases ys) (simp_all add: json_quote_def)
  moreover have "skip_ws (join '', '' (map json_quote (y # ys)) @ '']'') = join '', '' (map json_quote (y # ys)) @ '']''"
    by (rule skip_ws_quoted)
  ultimately show ?thesis
    using Cons by (simp add: json_loads_str_array_def)
qed

section \<open>Response flattener (\<open>etl/data_processor.py\<close>)\<close>

text \<open>
  \<open>convert_complex_type_to_json\<close>: a list or dict becomes its JSON text, or None when
  the encoder raises TypeError or ValueError; any other value is returned as it is.
\<close>

definition convert_complex_type_to_json :: "pyval \<Rightarrow> pyval" where
  "convert_complex_type_to_json v =
     (if is_complex v then (case json_dumps v of Some s \<Rightarrow> PStr s | None \<Rightarrow> PNone) else v)"

type_synonym row = "(string \<times> pyval) list"

text \<open>
  The body of both attribute loops: \<open>data_dict[col] = convert_complex_type_to_json(v)\<close>
  for a list or dict, \<open>data_dict[col] = v\<close> otherwise. (\<open>detected_types\<close> is written and
  never read, so it is left out.)
\<close>

definition store_value :: "row \<Rightarrow> string \<Rightarrow> pyval \<Rightarrow> row" where
  "store_value r col v =
     dict_set r col (if is_complex v then convert_complex_type_to_json v else v)"

text \<open>
  One step of the loop that builds \<open>included_lookup\<close>: an included item with a truthy id
  and type is stored under the key \<open>f"{item_id}_{item_type}"\<close>.
\<close>

definition add_included :: "(pyval \<Rightarrow> string) \<Rightarrow> row \<Rightarrow> pyval \<Rightarrow> row option" where
  "add_included rp lk item =
     do {
       item_id \<leftarrow> py_get item ''id'' PNone;
       item_type \<leftarrow> py_get item ''type'' (PStr '''');
       Some (if py_truthy item_id \<and> py_truthy item_type
             then dict_set lk (py_str rp item_id @ ''_'' @ py_str rp item_type) item
             else lk)
     }"

text \<open>Inlining the attributes of an included resource under \<open>f"{rel_type}_{attr_name}"\<close>.\<close>

definition inline_attrs :: "string \<Rightarrow> row \<Rightarrow> (string \<times> pyval) list \<Rightarrow> row" where
  "inline_attrs pre r kvs = foldl (\<lambda>r' (a, v). store_value r' (pre @ ''_'' @ a) v) r kvs"

text \<open>
  The body of \<open>for rel_item in rel_items\<close>; the state is the row under construction and
  \<open>rel_ids\<close>.
\<close>

definition process_rel_item ::
  "(pyval \<Rightarrow> string) \<Rightarrow> row \<Rightarrow> row \<times> pyval list \<Rightarrow> pyval \<Rightarrow> (row \<times> pyval list) option" where
  "process_rel_item rp lk st rel_item =
     (case st of (r, rel_ids) \<Rightarrow>
       (case rel_item of
          PDict kvs \<Rightarrow>
            (let rel_id = (case map_of kvs ''id'' of None \<Rightarrow> PNone | Some v \<Rightarrow> v);
                 rel_type = (case map_of kvs ''type'' of None \<Rightarrow> PStr '''' | Some v \<Rightarrow> v)
             in if py_truthy rel_id then
                  (case map_of lk (py_str rp rel_id @ ''_'' @ py_str rp rel_type) of
                     None \<Rightarrow> Some (r, rel_ids @ [rel_id])
                   | Some included_data \<Rightarrow>
                       if py_truthy included_data then
                         do {
                           included_attrs \<leftarrow> py_get included_data ''attributes'' (PDict []);
                           attrs \<leftarrow> py_items included_attrs;
                           Some (inline_attrs (py_str rp rel_type) r attrs, rel_ids @ [rel_id])
                         }
                       else Some (r, rel_ids @ [rel_id]))
                else Some (r, rel_ids))
        | _ \<Rightarrow> Some (r, rel_ids)))"

text \<open>\<open>rel_items = rel_data['data']\<close>, wrapped into a list when it is not one.\<close>

definition rel_items_of :: "pyval \<Rightarrow> pyval list" where
  "rel_items_of v = (case v of PList xs \<Rightarrow> xs | _ \<Rightarrow> if py_truthy v then [v] else [])"

text \<open>The final \<open>if rel_ids:\<close> block of a relationship.\<close>

definition store_rel_ids :: "row \<Rightarrow> string \<Rightarrow> pyval list \<Rightarrow> row" where
  "store_rel_ids r rel_name rel_ids =
     (if rel_ids \<noteq> [] then
        dict_set (if length rel_ids = 1 then dict_set r (rel_name @ ''_id'') (hd rel_ids) else r)
          (rel_name @ ''_ids'') (convert_complex_type_to_json (PList rel_ids))
      else r)"

text \<open>The body of \<open>for rel_name, rel_data in relationships.items()\<close>.\<close>

definition process_relationship ::
  "(pyval \<Rightarrow> string) \<Rightarrow> row \<Rightarrow> row \<Rightarrow> string \<times> pyval \<Rightarrow> row option" where
  "process_relationship rp lk r rel =
     (case rel of (rel_name, rel_data) \<Rightarrow>
        if \<not> py_truthy rel_data then Some r
        else do {
          has \<leftarrow> py_contains rel_data ''data'';
          if \<not> has then Some r
          else do {
            d \<leftarrow> py_getitem rel_data ''data'';
            (r', rel_ids) \<leftarrow> foldM (process_rel_item rp lk) (r, []) (rel_items_of d);
            Some (store_rel_ids r' rel_name rel_ids)
          }
        })"

text \<open>The body of \<open>for item in data_items\<close>: the row of one data item.\<close>

definition process_item :: "(pyval \<Rightarrow> string) \<Rightarrow> row \<Rightarrow> pyval \<Rightarrow> row option" where
  "process_item rp lk item =
     do {
       item_id \<leftarrow> py_get item ''id'' PNone;
       item_type \<leftarrow> py_get item ''type'' (PStr '''');
       attributes \<leftarrow> py_get item ''attributes'' (PDict []);
       relationships \<leftarrow> py_get item ''relationships'' (PDict []);
       attrs \<leftarrow> py_items attributes;
       rels \<leftarrow> py_items relationships;
       foldM (process_relationship rp lk)
         (foldl (\<lambda>r (a, v). store_value r a v) [(py_str rp item_type @ ''_id'', item_id)] attrs)
         rels
     }"

text \<open>The loop that builds \<open>included_lookup\<close> from \<open>included_items\<close>.\<close>

definition build_included_lookup :: "(pyval \<Rightarrow> string) \<Rightarrow> pyval \<Rightarrow> row option" where
  "build_included_lookup rp included_items =
     do {
       incl \<leftarrow> py_iter included_items;
       foldM (add_included rp) [] incl
     }"

text \<open>
  The \<open>try\<close> block of \<open>process_jsonapi_response\<close>; \<open>None\<close> when it raises. The endpoint
  argument is only logged.
\<close>

definition process_page :: "(pyval \<Rightarrow> string) \<Rightarrow> pyval \<Rightarrow> row list option" where
  "process_page rp response =
     do {
       data_items \<leftarrow> py_get response ''data'' (PList []);
       included_items \<leftarrow> py_get response ''included'' (PList []);
       lk \<leftarrow> build_included_lookup rp included_items;
       items \<leftarrow> py_iter data_items;
       those (map (process_item rp lk) items)
     }"

text \<open>\<open>except Exception: return []\<close>.\<close>

definition process_jsonapi_response :: "(pyval \<Rightarrow> string) \<Rightarrow> pyval \<Rightarrow> row list" where
  "process_jsonapi_response rp response =
     (case process_page rp response of None \<Rightarrow> [] | Some rows \<Rightarrow> rows)"

subsection \<open>Columns of a row\<close>

lemma keys_dict_set: "fst ` set (dict_set r k v) = insert k (fst ` set r)"
  by (induction r k v rule: dict_set.induct) auto

lemma map_of_dict_set: "map_of (dict_set r k v) = (map_of r)(k \<mapsto> v)"
  by (induction r k v rule: dict_set.induct) auto

lemma keys_store_value: "fst ` set (store_value r k v) = insert k (fst ` set r)"
  by (simp add: store_value_def keys_dict_set)

lemma keys_foldl_store_mem:
  "k \<in> fst ` set r \<Longrightarrow> k \<in> fst ` set (foldl (\<lambda>r' (a, v). store_value r' (f a) v) r kvs)"
proof (induction kvs arbitrary: r)
  case Nil
  then show ?case by simp
next
  case (Cons x kvs)
  obtain a v where x: "x = (a, v)" by (cases x)
  have "k \<in> fst ` set (store_value r (f a) v)"
    using Cons.prems by (simp add: keys_store_value)
  from Cons.IH [OF this] show ?case by (simp add: x)
qed

lemma keys_foldl_store:
  "fst ` set r \<subseteq> fst ` set (foldl (\<lambda>r' (a, v). store_value r' (f a) v) r kvs)"
  using keys_foldl_store_mem by blast

lemma keys_inline_attrs: "fst ` set r \<subseteq> fst ` set (inline_attrs pre r kvs)"
  unfolding inline_attrs_def by (rule keys_foldl_store)

lemma keys_store_rel_ids: "fst ` set r \<subseteq> fst ` set (store_rel_ids r n ids)"
  by (auto simp: store_rel_ids_def keys_dict_set)

lemma process_rel_item_cases:
  assumes "process_rel_item rp lk (r, ids) x = Some (r', ids')"
  shows "(r' = r \<and> (ids' = ids \<or> (\<exists>i. ids' = ids @ [i])))
       \<or> (\<exists>pre attrs i. r' = inline_attrs pre r attrs \<and> ids' = ids @ [i])"
  using assms
  by (cases x) (auto simp: process_rel_item_def Let_def split: option.splits if_splits bind_splits)

lemma keys_process_rel_item:
  "process_rel_item rp lk (r, ids) x = Some (r', ids') \<Longrightarrow> fst ` set r \<subseteq> fst ` set r'"
proof -
  assume "process_rel_item rp lk (r, ids) x = Some (r', ids')"
  from process_rel_item_cases [OF this]
  have "r' = r \<or> (\<exists>pre attrs. r' = inline_attrs pre r attrs)" by blast
  then show ?thesis using keys_inline_attrs [of r] by (elim disjE exE) simp_all
qed

lemma foldM_keys_rel_item:
  "foldM (process_rel_item rp lk) (r, ids) xs = Some (r', ids') \<Longrightarrow> fst ` set r \<subseteq> fst ` set r'"
proof (induction xs arbitrary: r ids)
  case Nil
  then show ?case by simp
next
  case (Cons x xs)
  then obtain r1 ids1 where s: "process_rel_item rp lk (r, ids) x = Some (r1, ids1)"
    and t: "foldM (process_rel_item rp lk) (r1, ids1) xs = Some (r', ids')"
    by (auto split: option.splits)
  from keys_process_rel_item [OF s] Cons.IH [OF t] show ?case by blast
qed

lemma process_relationship_cases:
  assumes "process_relationship rp lk r (n, d) = Some r'"
  shows "r' = r \<or> (\<exists>x r1 ids. py_getitem d ''data'' = Some x
            \<and> foldM (process_rel_item rp lk) (r, []) (rel_items_of x) = Some (r1, ids)
            \<and> r' = store_rel_ids r1 n ids)"
  using assms
  by (auto simp: process_relationship_def split: if_splits bind_splits)

lemma keys_process_relationship:
  assumes "process_relationship rp lk r rel = Some r'"
  shows "fst ` set r \<subseteq> fst ` set r'"
proof -
  obtain n d where rel: "rel = (n, d)" by (cases rel)
  from process_relationship_cases [OF assms [unfolded rel]]
  show ?thesis
  proof
    assume "r' = r" then show ?thesis by simp
  next
    assume "\<exists>x r1 ids. py_getitem d ''data'' = Some x
            \<and> foldM (process_rel_item rp lk) (r, []) (rel_items_of x) = Some (r1, ids)
            \<and> r' = store_rel_ids r1 n ids"
    then obtain x r1 ids where f: "foldM (process_rel_item rp lk) (r, []) (rel_items_of x) = Some (r1, ids)"
      and r': "r' = store_rel_ids r1 n ids" by blast
    from foldM_keys_rel_item [OF f] keys_store_rel_ids [of r1 n ids] r' show ?thesis by blast
  qed
qed

lemma foldM_keys_relationship:
  "foldM (process_relationship rp lk) r rels = Some r' \<Longrightarrow> fst ` set r \<subseteq> fst ` set r'"
proof (induction rels arbitrary: r)
  case Nil
  then show ?case by simp
next
  case (Cons x xs)
  then obtain r1 where s: "process_relationship rp lk r x = Some r1"
    and t: "foldM (process_relationship rp lk) r1 xs = Some r'"
    by (auto split: option.splits)
  from keys_process_relationship [OF s] Cons.IH [OF t] show ?case by blast
qed

lemma process_item_primary_key:
  assumes "process_item rp lk item = Some r"
  shows "\<exists>kvs. item = PDict kvs
     \<and> py_str rp (case map_of kvs ''type'' of None \<Rightarrow> PStr '''' | Some t \<Rightarrow> t) @ ''_id'' \<in> fst ` set r"
proof -
  from assms obtain kvs where item: "item = PDict kvs"
    by (cases item) (auto simp: process_item_def)
  let ?k = "py_str rp (case map_of kvs ''type'' of None \<Rightarrow> PStr '''' | Some t \<Rightarrow> t) @ ''_id''"
  from assms item obtain attrs rels r0 where
    f: "foldM (process_relationship rp lk)
          (foldl (\<lambda>r (a, v). store_value r a v) [(?k, r0)] attrs) rels = Some r"
    by (auto simp: process_item_def split: bind_splits)
  have "?k \<in> fst ` set (foldl (\<lambda>r (a, v). store_value r a v) [(?k, r0)] attrs)"
    using keys_foldl_store [of "[(?k, r0)]" "\<lambda>a. a" attrs] by auto
  with foldM_keys_relationship [OF f] item show ?thesis by blast
qed

lemma those_map_Some:
  "those (map f xs) = Some ys \<Longrightarrow> length ys = length xs \<and> (\<forall>i<length xs. f (xs ! i) = Some (ys ! i))"
proof (induction xs arbitrary: ys)
  case Nil
  then show ?case by simp
next
  case (Cons x xs)
  then obtain y ys' where "f x = Some y" "those (map f xs) = Some ys'" "ys = y # ys'"
    by (auto split: option.splits)
  with Cons.IH [of ys'] show ?case by (auto simp: nth_Cons split: nat.splits)
qed

subsection \<open>What a relationship links and what it inlines\<close>

text \<open>
  The id of a reference as the relationship loop reads it: the reference is a dict and its
  \<open>id\<close> is truthy.
\<close>

definition ref_id :: "pyval \<Rightarrow> pyval option" where
  "ref_id x =
     (case x of
        PDict kvs \<Rightarrow>
          (let rel_id = (case map_of kvs ''id'' of None \<Rightarrow> PNone | Some v \<Rightarrow> v)
           in if py_truthy rel_id then Some rel_id else None)
      | _ \<Rightarrow> None)"

text \<open>The ids a relationship carries, in order: those of the entries of its \<open>data\<close>.\<close>

definition carried_ids :: "pyval \<Rightarrow> pyval list" where
  "carried_ids rel_data =
     (case py_getitem rel_data ''data'' of
        None \<Rightarrow> []
      | Some d \<Rightarrow> List.map_filter ref_id (rel_items_of d))"

text \<open>
  The columns that processing one reference writes from the included lookup:
  \<open>f"{rel_type}_{attr_name}"\<close> for every attribute of the resource found under the
  reference's key.
\<close>

definition inlined_columns_item :: "(pyval \<Rightarrow> string) \<Rightarrow> row \<Rightarrow> pyval \<Rightarrow> string list" where
  "inlined_columns_item rp lk x =
     (case x of
        PDict kvs \<Rightarrow>
          (let rel_id = (case map_of kvs ''id'' of None \<Rightarrow> PNone | Some v \<Rightarrow> v);
               rel_type = (case map_of kvs ''type'' of None \<Rightarrow> PStr '''' | Some v \<Rightarrow> v)
           in if py_truthy rel_id then
                (case map_of lk (py_str rp rel_id @ ''_'' @ py_str rp rel_type) of
                   None \<Rightarrow> []
                 | Some included_data \<Rightarrow>
                     if py_truthy included_data then
                       (case py_get included_data ''attributes'' (PDict []) of
                          Some (PDict attrs) \<Rightarrow> map (\<lambda>(a, v). py_str rp rel_type @ ''_'' @ a) attrs
                        | _ \<Rightarrow> [])
                     else [])
              else [])
      | _ \<Rightarrow> [])"

definition inlined_columns :: "(pyval \<Rightarrow> string) \<Rightarrow> row \<Rightarrow> pyval \<Rightarrow> string list" where
  "inlined_columns rp lk rel_data =
     (case py_getitem rel_data ''data'' of
        None \<Rightarrow> []
      | Some d \<Rightarrow> concat (map (inlined_columns_item rp lk) (rel_items_of d)))"

lemma map_of_store_value_other:
  "c \<noteq> k \<Longrightarrow> map_of (store_value r k v) c = map_of r c"
  by (simp add: store_value_def map_of_dict_set)

lemma map_of_inline_attrs_other:
  "c \<notin> set (map (\<lambda>(a, v). pre @ ''_'' @ a) attrs) \<Longrightarrow> map_of (inline_attrs pre r attrs) c = map_of r c"
  unfolding inline_attrs_def
proof (induction attrs arbitrary: r)
  case Nil
  then show ?case by simp
next
  case (Cons x attrs)
  obtain a v where x: "x = (a, v)" by (cases x)
  from Cons.prems x have ne: "c \<noteq> pre @ ''_'' @ a"
    and rest: "c \<notin> set (map (\<lambda>(a, v). pre @ ''_'' @ a) attrs)" by auto
  from Cons.IH [OF rest, of "store_value r (pre @ ''_'' @ a) v"] ne x
  show ?case by (simp add: map_of_store_value_other)
qed

lemma process_rel_item_effect:
  assumes "process_rel_item rp lk (r, ids) x = Some (r', ids')"
  shows "ids' = ids @ (case ref_id x of None \<Rightarrow> [] | Some i \<Rightarrow> [i])"
    and "c \<notin> set (inlined_columns_item rp lk x) \<Longrightarrow> map_of r' c = map_of r c"
proof -
  show "ids' = ids @ (case ref_id x of None \<Rightarrow> [] | Some i \<Rightarrow> [i])"
    using assms
    by (cases x) (auto simp: process_rel_item_def ref_id_def Let_def split: option.splits if_splits bind_splits)
next
  assume c: "c \<notin> set (inlined_columns_item rp lk x)"
  show "map_of r' c = map_of r c"
  proof (cases x)
    case (PDict kvs)
    define rel_id where "rel_id = (case map_of kvs ''id'' of None \<Rightarrow> PNone | Some v \<Rightarrow> v)"
    define rel_type where "rel_type = (case map_of kvs ''type'' of None \<Rightarrow> PStr '''' | Some v \<Rightarrow> v)"
    show ?thesis
    proof (cases "py_truthy rel_id")
      case False
      with assms PDict show ?thesis by (simp add: process_rel_item_def rel_id_def)
    next
      case True
      show ?thesis
      proof (cases "map_of lk (py_str rp rel_id @ ''_'' @ py_str rp rel_type)")
        case None
        with assms PDict True show ?thesis
          by (simp add: process_rel_item_def rel_id_def rel_type_def)
      next
        case (Some inc)
        show ?thesis
        proof (cases "py_truthy inc")
          case False
          with assms PDict True Some show ?thesis
            by (simp add: process_rel_item_def rel_id_def rel_type_def)
        next
          case inc: True
          from assms PDict True Some inc obtain ia attrs where
            ia: "py_get inc ''attributes'' (PDict []) = Some ia" and at: "py_items ia = Some attrs"
            and r': "r' = inline_attrs (py_str rp rel_type) r attrs"
            by (auto simp: process_rel_item_def rel_id_def rel_type_def split: bind_splits)
          from at have "ia = PDict attrs" by (cases ia) simp_all
          with c PDict True Some ia inc
          have "c \<notin> set (map (\<lambda>(a, v). py_str rp rel_type @ ''_'' @ a) attrs)"
            by (simp add: inlined_columns_item_def rel_id_def rel_type_def)
          from map_of_inline_attrs_other [OF this] r' show ?thesis by simp
        qed
      qed
    qed
  qed (use assms in \<open>simp_all add: process_rel_item_def\<close>)
qed

lemma foldM_rel_items_effect:
  assumes "foldM (process_rel_item rp lk) (r, ids) xs = Some (r', ids')"
  shows "ids' = ids @ List.map_filter ref_id xs
       \<and> (c \<notin> set (concat (map (inlined_columns_item rp lk) xs)) \<longrightarrow> map_of r' c = map_of r c)"
  using assms
proof (induction xs arbitrary: r ids)
  case Nil
  then show ?case by (simp add: List.map_filter_simps)
next
  case (Cons x xs)
  then obtain r1 ids1 where s: "process_rel_item rp lk (r, ids) x = Some (r1, ids1)"
    and t: "foldM (process_rel_item rp lk) (r1, ids1) xs = Some (r', ids')"
    by (auto split: option.splits)
  from process_rel_item_effect [OF s] Cons.IH [OF t]
  show ?case by (auto simp: List.map_filter_simps split: option.splits)
qed

lemma carried_ids_data:
  assumes "carried_ids d \<noteq> []"
  shows "\<exists>kvs x. d = PDict kvs \<and> map_of kvs ''data'' = Some x \<and> py_truthy d
          \<and> py_contains d ''data'' = Some True \<and> carried_ids d = List.map_filter ref_id (rel_items_of x)"
proof -
  from assms obtain x where x: "py_getitem d ''data'' = Some x"
    by (auto simp: carried_ids_def split: option.splits)
  then obtain kvs where d: "d = PDict kvs" by (cases d) simp_all
  with x have m: "map_of kvs ''data'' = Some x" by simp
  then have "(''data'', x) \<in> set kvs" by (rule map_of_SomeD)
  then have "kvs \<noteq> []" "''data'' \<in> fst ` set kvs" by force+
  with d m x show ?thesis by (simp add: carried_ids_def)
qed

lemma process_relationship_own:
  assumes p: "process_relationship rp lk r (n, d) = Some r'" and ids: "carried_ids d = ids" "ids \<noteq> []"
  shows "map_of r' (n @ ''_ids'') = Some (convert_complex_type_to_json (PList ids))
       \<and> (length ids = 1 \<longrightarrow> (\<exists>v. map_of r' (n @ ''_id'') = Some v \<and> ids = [v]))"
proof -
  from carried_ids_data [of d] ids obtain kvs x where d: "d = PDict kvs" "map_of kvs ''data'' = Some x"
    "py_truthy d" "py_contains d ''data'' = Some True" and c: "ids = List.map_filter ref_id (rel_items_of x)"
    by auto
  from p d obtain r1 ids1 where f: "foldM (process_rel_item rp lk) (r, []) (rel_items_of x) = Some (r1, ids1)"
    and r': "r' = store_rel_ids r1 n ids1"
    by (auto simp: process_relationship_def split: bind_splits)
  from foldM_rel_items_effect [OF f] c have i1: "ids1 = ids" by simp
  have ne: "n @ ''_id'' \<noteq> n @ ''_ids''" by simp
  show ?thesis
    using ids(2) ne unfolding r' i1 store_rel_ids_def
    by (cases ids) (auto simp: map_of_dict_set)
qed

lemma process_relationship_frame:
  assumes p: "process_relationship rp lk r (n, d) = Some r'"
    and c: "c \<notin> set (inlined_columns rp lk d)" "c \<noteq> n @ ''_id''" "c \<noteq> n @ ''_ids''"
  shows "map_of r' c = map_of r c"
proof -
  from process_relationship_cases [OF p]
  show ?thesis
  proof
    assume "r' = r" then show ?thesis by simp
  next
    assume "\<exists>x r1 ids. py_getitem d ''data'' = Some x
            \<and> foldM (process_rel_item rp lk) (r, []) (rel_items_of x) = Some (r1, ids)
            \<and> r' = store_rel_ids r1 n ids"
    then obtain x r1 ids where x: "py_getitem d ''data'' = Some x"
      and f: "foldM (process_rel_item rp lk) (r, []) (rel_items_of x) = Some (r1, ids)"
      and r': "r' = store_rel_ids r1 n ids" by blast
    from c(1) x have "c \<notin> set (concat (map (inlined_columns_item rp lk) (rel_items_of x)))"
      by (simp add: inlined_columns_def)
    with foldM_rel_items_effect [OF f, of c] have "map_of r1 c = map_of r c" by simp
    with c(2,3) r' show ?thesis by (simp add: store_rel_ids_def map_of_dict_set)
  qed
qed

lemma foldM_relationships_frame:
  assumes "foldM (process_relationship rp lk) r rels = Some r'"
    and "\<forall>(n, d) \<in> set rels. c \<notin> set (inlined_columns rp lk d) \<and> c \<noteq> n @ ''_id'' \<and> c \<noteq> n @ ''_ids''"
  shows "map_of r' c = map_of r c"
  using assms
proof (induction rels arbitrary: r)
  case Nil
  then show ?case by simp
next
  case (Cons x rels)
  obtain n d where x: "x = (n, d)" by (cases x)
  from Cons.prems(1) obtain r1 where s: "process_relationship rp lk r (n, d) = Some r1"
    and t: "foldM (process_relationship rp lk) r1 rels = Some r'"
    by (auto simp: x split: option.splits)
  from Cons.prems(2) x have "c \<notin> set (inlined_columns rp lk d)" "c \<noteq> n @ ''_id''" "c \<noteq> n @ ''_ids''"
    and rest: "\<forall>(n, d) \<in> set rels. c \<notin> set (inlined_columns rp lk d) \<and> c \<noteq> n @ ''_id'' \<and> c \<noteq> n @ ''_ids''"
    by auto
  from process_relationship_frame [OF s this(1,2,3)] Cons.IH [OF t rest]
  show ?case by simp
qed

lemma foldM_append:
  "foldM f s (xs @ ys) = (case foldM f s xs of None \<Rightarrow> None | Some s' \<Rightarrow> foldM f s' ys)"
  by (induction xs arbitrary: s) (auto split: option.splits)

lemma id_column_names:
  "n \<noteq> m \<Longrightarrow> m @ ''_ids'' \<noteq> n @ ''_ids''"
  "m @ ''_ids'' \<noteq> n @ ''_id''"
  "m @ ''_id'' \<noteq> n @ ''_ids''"
  "n \<noteq> m \<Longrightarrow> m @ ''_id'' \<noteq> n @ ''_id''"
proof -
  have "last (m @ ''_ids'') \<noteq> last (n @ ''_id'')" by simp
  then show "m @ ''_ids'' \<noteq> n @ ''_id''" by metis
  have "last (m @ ''_id'') \<noteq> last (n @ ''_ids'')" by simp
  then show "m @ ''_id'' \<noteq> n @ ''_ids''" by metis
qed simp_all

lemma process_page_rows:
  assumes page: "process_page rp response = Some rows"
    and data: "py_get response ''data'' (PList []) = Some (PList items)"
  shows "process_jsonapi_response rp response = rows"
    and "length rows = length items"
    and "\<exists>incl lk. py_get response ''included'' (PList []) = Some incl
           \<and> build_included_lookup rp incl = Some lk
           \<and> (\<forall>i<length items. process_item rp lk (items ! i) = Some (rows ! i))"
proof -
  show "process_jsonapi_response rp response = rows"
    using page by (simp add: process_jsonapi_response_def)
  from page data obtain incl lk where
    i: "py_get response ''included'' (PList []) = Some incl"
    and l: "build_included_lookup rp incl = Some lk"
    and t: "those (map (process_item rp lk) items) = Some rows"
    by (auto simp: process_page_def split: bind_splits)
  from those_map_Some [OF t] show "length rows = length items" by simp
  from those_map_Some [OF t] i l
  show "\<exists>incl lk. py_get response ''included'' (PList []) = Some incl
           \<and> build_included_lookup rp incl = Some lk
           \<and> (\<forall>i<length items. process_item rp lk (items ! i) = Some (rows ! i))"
    by blast
qed

lemma process_item_relationships:
  assumes "process_item rp lk item = Some r"
    and "py_get item ''relationships'' (PDict []) = Some (PDict rels)"
  shows "\<exists>r0. foldM (process_relationship rp lk) r0 rels = Some r"
  using assms by (auto simp: process_item_def split: bind_splits)

subsection \<open>Example documents\<close>

text \<open>A reference to a resource, and an included resource with its attributes.\<close>

definition reference :: "string \<Rightarrow> string \<Rightarrow> pyval" where
  "reference i t = PDict [(''id'', PStr i), (''type'', PStr t)]"

definition resource :: "string \<Rightarrow> string \<Rightarrow> (string \<times> pyval) list \<Rightarrow> pyval" where
  "resource i t attrs = PDict [(''id'', PStr i), (''type'', PStr t), (''attributes'', PDict attrs)]"

definition page :: "pyval list \<Rightarrow> pyval list \<Rightarrow> pyval" where
  "page items incl = PDict [(''data'', PList items), (''included'', PList incl)]"

text \<open>A data item of type \<open>t\<close> and id \<open>7\<close> whose relationship \<open>r\<close> links one resource.\<close>

definition linking_item :: "string \<Rightarrow> string \<Rightarrow> pyval" where
  "linking_item i t =
     PDict [(''id'', PStr ''7''), (''type'', PStr ''t''),
            (''relationships'', PDict [(''r'', PDict [(''data'', reference i t)])])]"

text \<open>
  A data item with two relationships, in this order: \<open>a\<close> links the resources \<open>7\<close> and
  \<open>8\<close> of type \<open>x\<close>, \<open>b\<close> links the resource \<open>9\<close> of type \<open>t\<close>.
\<close>

definition two_links :: pyval where
  "two_links = PDict [(''data'', PList [reference ''7'' ''x'', reference ''8'' ''x''])]"

definition item_a_b :: "string \<Rightarrow> pyval" where
  "item_a_b t =
     PDict [(''id'', PStr ''1''), (''type'', PStr ''t''),
            (''relationships'',
             PDict [(''a'', two_links), (''b'', PDict [(''data'', reference ''9'' t)])])]"

text \<open>A data item with attributes only: it has neither an id nor a type.\<close>

definition anonymous_item :: pyval where
  "anonymous_item = PDict [(''attributes'', PDict [(''a'', PInt 1)])]"

text \<open>\<open>isinstance(v, dict)\<close>, and the name of the primary-key column of a data item.\<close>

fun is_dict :: "pyval \<Rightarrow> bool" where
  "is_dict (PDict kvs) = True"
| "is_dict v = False"

definition pk_column :: "(pyval \<Rightarrow> string) \<Rightarrow> pyval \<Rightarrow> string" where
  "pk_column rp item =
     (case py_get item ''type'' (PStr []) of None \<Rightarrow> [] | Some t \<Rightarrow> py_str rp t @ ''_id'')"

lemmas flatten_defs = process_jsonapi_response_def process_page_def build_included_lookup_def
  add_included_def process_item_def process_relationship_def process_rel_item_def rel_items_of_def
  store_rel_ids_def inline_attrs_def store_value_def convert_complex_type_to_json_def
  json_quote_def json_escape_char_def page_def resource_def reference_def

subsection \<open>The included lookup conflates keys\<close>

text \<open>
  Claim C9. The lookup of included resources is keyed by the text \<open>{id}_{type}\<close>. The
  resources with id \<open>1_a\<close>, type \<open>b\<close> and with id \<open>1\<close>, type \<open>a_b\<close> are distinct but get
  the same key \<open>1_a_b\<close>, so the lookup holds only the one inserted last, and a data item
  that links the resource \<open>(1_a, b)\<close> is given the attributes of whichever of the two
  comes last in \<open>included\<close>: with the names \<open>first\<close> and \<open>second\<close> for the two resources, its
  column \<open>b_name\<close> holds the name of the one that comes last.
\<close>

theorem included_lookup_conflates_keys:
  "py_str rp (PStr ''1_a'') @ ''_'' @ py_str rp (PStr ''b'')
     = py_str rp (PStr ''1'') @ ''_'' @ py_str rp (PStr ''a_b'')
   \<and> resource ''1_a'' ''b'' attrs1 \<noteq> resource ''1'' ''a_b'' attrs2
   \<and> build_included_lookup rp (PList [resource ''1_a'' ''b'' attrs1, resource ''1'' ''a_b'' attrs2])
       = Some [(''1_a_b'', resource ''1'' ''a_b'' attrs2)]
   \<and> process_jsonapi_response rp
         (page [linking_item ''1_a'' ''b''] [resource ''1_a'' ''b'' attrs1, resource ''1'' ''a_b'' attrs2])
       = [store_rel_ids (inline_attrs ''b'' [(''t_id'', PStr ''7'')] attrs2) ''r'' [PStr ''1_a'']]
   \<and> process_jsonapi_response rp
         (page [linking_item ''1_a'' ''b''] [resource ''1'' ''a_b'' attrs2, resource ''1_a'' ''b'' attrs1])
       = [store_rel_ids (inline_attrs ''b'' [(''t_id'', PStr ''7'')] attrs1) ''r'' [PStr ''1_a'']]
   \<and> process_jsonapi_response rp
         (page [linking_item ''1_a'' ''b'']
            [resource ''1_a'' ''b'' [(''name'', PStr ''first'')],
             resource ''1'' ''a_b'' [(''name'', PStr ''second'')]])
       = [[(''t_id'', PStr ''7''), (''b_name'', PStr ''second''), (''r_id'', PStr ''1_a''),
           (''r_ids'', PStr [CHR ''['', CHR 0x22, CHR ''1'', CHR ''_'', CHR ''a'', CHR 0x22, CHR '']''])]]
   \<and> process_jsonapi_response rp
         (page [linking_item ''1_a'' ''b'']
            [resource ''1'' ''a_b'' [(''name'', PStr ''second'')],
             resource ''1_a'' ''b'' [(''name'', PStr ''first'')]])
       = [[(''t_id'', PStr ''7''), (''b_name'', PStr ''first''), (''r_id'', PStr ''1_a''),
           (''r_ids'', PStr [CHR ''['', CHR 0x22, CHR ''1'', CHR ''_'', CHR ''a'', CHR 0x22, CHR '']''])]]"
proof -
  have keyed: "py_str rp (PStr ''1_a'') @ ''_'' @ py_str rp (PStr ''b'')
     = py_str rp (PStr ''1'') @ ''_'' @ py_str rp (PStr ''a_b'')
   \<and> resource ''1_a'' ''b'' attrs1 \<noteq> resource ''1'' ''a_b'' attrs2
   \<and> build_included_lookup rp (PList [resource ''1_a'' ''b'' attrs1, resource ''1'' ''a_b'' attrs2])
       = Some [(''1_a_b'', resource ''1'' ''a_b'' attrs2)]
   \<and> process_jsonapi_response rp
         (page [linking_item ''1_a'' ''b''] [resource ''1_a'' ''b'' attrs1, resource ''1'' ''a_b'' attrs2])
       = [store_rel_ids (inline_attrs ''b'' [(''t_id'', PStr ''7'')] attrs2) ''r'' [PStr ''1_a'']]
   \<and> process_jsonapi_response rp
         (page [linking_item ''1_a'' ''b''] [resource ''1'' ''a_b'' attrs2, resource ''1_a'' ''b'' attrs1])
       = [store_rel_ids (inline_attrs ''b'' [(''t_id'', PStr ''7'')] attrs1) ''r'' [PStr ''1_a'']]"
    by (simp add: resource_def reference_def linking_item_def page_def build_included_lookup_def
        add_included_def process_jsonapi_response_def process_page_def process_item_def
        process_relationship_def process_rel_item_def rel_items_of_def)
  have last_wins: "process_jsonapi_response rp
         (page [linking_item ''1_a'' ''b'']
            [resource ''1_a'' ''b'' [(''name'', PStr ''first'')],
             resource ''1'' ''a_b'' [(''name'', PStr ''second'')]])
       = [[(''t_id'', PStr ''7''), (''b_name'', PStr ''second''), (''r_id'', PStr ''1_a''),
           (''r_ids'', PStr [CHR ''['', CHR 0x22, CHR ''1'', CHR ''_'', CHR ''a'', CHR 0x22, CHR '']''])]]"
    by (simp add: flatten_defs linking_item_def)
  have last_wins': "process_jsonapi_response rp
         (page [linking_item ''1_a'' ''b'']
            [resource ''1'' ''a_b'' [(''name'', PStr ''second'')],
             resource ''1_a'' ''b'' [(''name'', PStr ''first'')]])
       = [[(''t_id'', PStr ''7''), (''b_name'', PStr ''first''), (''r_id'', PStr ''1_a''),
           (''r_ids'', PStr [CHR ''['', CHR 0x22, CHR ''1'', CHR ''_'', CHR ''a'', CHR 0x22, CHR '']''])]]"
    by (simp add: flatten_defs linking_item_def)
  from keyed last_wins last_wins' show ?thesis by simp
qed

subsection \<open>One row per data item\<close>

text \<open>
  Claim C5 says that a data item missing its type or id is skipped. The code has no such
  test on data items (the test \<open>if item_id and item_type\<close> guards the included lookup
  only): the item without id and type below yields the row \<open>{'_id': None, 'a': 1}\<close>.
\<close>

theorem anonymous_item_yields_row:
  "process_jsonapi_response (\<lambda>v. []) (page [anonymous_item, reference ''2'' ''t''] [])
   = [[(''_id'', PNone), (''a'', PInt 1)], [(''t_id'', PStr ''2'')]]"
  by (simp add: flatten_defs anonymous_item_def)

text \<open>
  Claim C5, as the code has it. \<open>process_jsonapi_response\<close> never raises: when the
  processing of the page raises, the result is the empty list. When it does not raise and
  \<open>data\<close> is a list, the result has exactly one row per data item, in order, and the row
  of an item carries the primary-key column \<open>{type}_id\<close> (\<open>_id\<close> for an item without
  type): no item is skipped. A data item that is not an object makes the processing raise,
  so the whole page yields the empty list.
\<close>

theorem rows_one_per_data_item:
  "(process_page rp response = None \<longrightarrow> process_jsonapi_response rp response = [])
   \<and> (\<forall>rows items.
         process_page rp response = Some rows
         \<and> py_get response ''data'' (PList []) = Some (PList items)
         \<longrightarrow> process_jsonapi_response rp response = rows
             \<and> length rows = length items
             \<and> (\<forall>i<length items. is_dict (items ! i)
                    \<and> pk_column rp (items ! i) \<in> fst ` set (rows ! i)))
   \<and> (\<forall>items.
         py_get response ''data'' (PList []) = Some (PList items) \<and> (\<exists>x\<in>set items. \<not> is_dict x)
         \<longrightarrow> process_jsonapi_response rp response = [])"
proof (intro conjI allI impI)
  assume "process_page rp response = None"
  then show "process_jsonapi_response rp response = []"
    by (simp add: process_jsonapi_response_def)
next
  fix rows items
  assume a: "process_page rp response = Some rows
         \<and> py_get response ''data'' (PList []) = Some (PList items)"
  then have page: "process_page rp response = Some rows"
    and data: "py_get response ''data'' (PList []) = Some (PList items)" by simp_all
  from process_page_rows(1) [OF page data]
  show "process_jsonapi_response rp response = rows" .
  from process_page_rows(2) [OF page data]
  show "length rows = length items" .
  from process_page_rows(3) [OF page data] obtain lk where
    each: "\<forall>i<length items. process_item rp lk (items ! i) = Some (rows ! i)" by auto
  fix i assume "i < length items"
  with each have "process_item rp lk (items ! i) = Some (rows ! i)" by simp
  from process_item_primary_key [OF this] obtain kvs where "items ! i = PDict kvs"
    and "py_str rp (case map_of kvs ''type'' of None \<Rightarrow> PStr [] | Some t \<Rightarrow> t) @ ''_id''
           \<in> fst ` set (rows ! i)"
    by (elim exE conjE)
  then have "is_dict (items ! i) \<and> pk_column rp (items ! i) \<in> fst ` set (rows ! i)"
    by (simp add: pk_column_def)
  then show "is_dict (items ! i)" and "pk_column rp (items ! i) \<in> fst ` set (rows ! i)"
    by simp_all
next
  fix items
  assume a: "py_get response ''data'' (PList []) = Some (PList items) \<and> (\<exists>x\<in>set items. \<not> is_dict x)"
  then have data: "py_get response ''data'' (PList []) = Some (PList items)" by simp
  from a obtain i where i: "i < length items" "\<not> is_dict (items ! i)"
    by (auto simp: in_set_conv_nth)
  show "process_jsonapi_response rp response = []"
  proof (cases "process_page rp response")
    case None
    then show ?thesis by (simp add: process_jsonapi_response_def)
  next
    case (Some rows)
    from process_page_rows(3) [OF Some data] i(1) obtain lk where
      "process_item rp lk (items ! i) = Some (rows ! i)" by auto
    from process_item_primary_key [OF this] i(2) show ?thesis by auto
  qed
qed

theorem rows_one_per_data_item_witness:
  "process_page (\<lambda>v. []) (page [anonymous_item, reference ''2'' ''t''] [])
     = Some [[(''_id'', PNone), (''a'', PInt 1)], [(''t_id'', PStr ''2'')]]
   \<and> length (process_jsonapi_response (\<lambda>v. []) (page [anonymous_item, reference ''2'' ''t''] [])) = 2
   \<and> pk_column (\<lambda>v. []) anonymous_item = ''_id''
   \<and> process_page (\<lambda>v. []) (page [reference ''2'' ''t'', PNone] []) = None
   \<and> process_jsonapi_response (\<lambda>v. []) (page [reference ''2'' ''t'', PNone] []) = []"
  using rows_one_per_data_item [of "\<lambda>v. []" "page [anonymous_item, reference ''2'' ''t''] []"]
    rows_one_per_data_item [of "\<lambda>v. []" "page [reference ''2'' ''t'', PNone] []"]
  by (simp add: flatten_defs anonymous_item_def pk_column_def)

subsection \<open>The ids column of a relationship\<close>

text \<open>
  Claim C1 says that for every data item the column \<open>{relation}_ids\<close> decodes to the ids
  the relationship carries. A relationship processed later can write the same column
  when it inlines an included attribute: below, relationship \<open>a\<close> carries the ids \<open>7\<close>
  and \<open>8\<close>, and relationship \<open>b\<close> links a resource of type \<open>a\<close> whose attribute \<open>ids\<close> is
  inlined as \<open>a_ids\<close>, so the row's \<open>a_ids\<close> decodes to \<open>["x"]\<close>.
\<close>

theorem later_relationship_overwrites_ids:
  "carried_ids two_links = map PStr [''7'', ''8'']
   \<and> py_get (item_a_b ''a'') ''relationships'' (PDict [])
       = Some (PDict [(''a'', two_links), (''b'', PDict [(''data'', reference ''9'' ''a'')])])
   \<and> map_of (process_jsonapi_response (\<lambda>v. [])
               (page [item_a_b ''a''] [resource ''9'' ''a'' [(''ids'', PList [PStr ''x''])]]) ! 0) ''a_ids''
       = Some (PStr [CHR ''['', CHR 0x22, CHR ''x'', CHR 0x22, CHR '']''])
   \<and> json_loads_str_array [CHR ''['', CHR 0x22, CHR ''x'', CHR 0x22, CHR '']''] = Some (PList [PStr ''x''])"
  by (simp add: flatten_defs item_a_b_def two_links_def carried_ids_def ref_id_def
      List.map_filter_simps json_loads_str_array_def scan_items.simps cons_result_def)

text \<open>
  Claim C1, as the code has it. Let processing of the page not raise, let \<open>data\<close> be a
  list, and let the relationships of data item \<open>i\<close> (a dict, so with distinct names) map
  \<open>rel\<close> to references that carry the ids \<open>ids\<close>, at least one, all strings. If no
  relationship processed after \<open>rel\<close> inlines an included attribute under the name
  \<open>{rel}_ids\<close>, then row \<open>i\<close> holds in that column the JSON text of \<open>ids\<close>, which decodes
  to exactly \<open>ids\<close> in order. If moreover there is one id and no later relationship
  inlines an attribute under \<open>{rel}_id\<close>, the row holds that id in \<open>{rel}_id\<close>.
\<close>

theorem relationship_ids_round_trip:
  assumes page: "process_page rp response = Some rows"
    and data: "py_get response ''data'' (PList []) = Some (PList items)"
    and incl: "py_get response ''included'' (PList []) = Some incl"
    and lk: "build_included_lookup rp incl = Some lk"
    and i: "i < length items"
    and rels: "py_get (items ! i) ''relationships'' (PDict []) = Some (PDict (before @ (rel, rel_data) # after))"
    and dist: "distinct (map fst (before @ (rel, rel_data) # after))"
    and ids: "carried_ids rel_data = map PStr ids" "ids \<noteq> []"
    and free: "\<forall>(n, d) \<in> set after. rel @ ''_ids'' \<notin> set (inlined_columns rp lk d)"
  shows "\<exists>enc. map_of (process_jsonapi_response rp response ! i) (rel @ ''_ids'') = Some (PStr enc)
           \<and> json_dumps (PList (map PStr ids)) = Some enc
           \<and> json_loads_str_array enc = Some (PList (map PStr ids))
           \<and> (length ids = 1
                \<and> (\<forall>(n, d) \<in> set after. rel @ ''_id'' \<notin> set (inlined_columns rp lk d))
              \<longrightarrow> map_of (process_jsonapi_response rp response ! i) (rel @ ''_id'') = Some (PStr (hd ids)))"
proof -
  from process_page_rows [OF page data] incl lk i
  have out: "process_jsonapi_response rp response = rows"
    and item: "process_item rp lk (items ! i) = Some (rows ! i)" by auto
  from process_item_relationships [OF item rels] obtain r0 where
    f: "foldM (process_relationship rp lk) r0 (before @ (rel, rel_data) # after) = Some (rows ! i)" ..
  then obtain r1 r2 where b: "foldM (process_relationship rp lk) r0 before = Some r1"
    and own: "process_relationship rp lk r1 (rel, rel_data) = Some r2"
    and a: "foldM (process_relationship rp lk) r2 after = Some (rows ! i)"
    by (auto simp: foldM_append split: option.splits)
  define enc where "enc = ''['' @ join '', '' (map json_quote ids) @ '']''"
  have dumps: "json_dumps (PList (map PStr ids)) = Some enc"
    unfolding enc_def by (rule json_dumps_strs)
  have conv: "convert_complex_type_to_json (PList (map PStr ids)) = PStr enc"
    by (simp only: convert_complex_type_to_json_def is_complex.simps if_True dumps option.case)
  have ne: "map PStr ids \<noteq> []" using ids(2) by simp
  from process_relationship_own [OF own ids(1) ne] conv
  have o1: "map_of r2 (rel @ ''_ids'') = Some (PStr enc)"
    and o2: "length ids = 1 \<longrightarrow> (\<exists>v. map_of r2 (rel @ ''_id'') = Some v \<and> map PStr ids = [v])"
    by simp_all
  from dist have "rel \<notin> fst ` set after" by simp
  then have other: "\<forall>(n, d) \<in> set after. n \<noteq> rel" by force
  have fr1: "\<forall>(n, d) \<in> set after. rel @ ''_ids'' \<notin> set (inlined_columns rp lk d)
                \<and> rel @ ''_ids'' \<noteq> n @ ''_id'' \<and> rel @ ''_ids'' \<noteq> n @ ''_ids''"
  proof -
    have "rel @ ''_ids'' \<notin> set (inlined_columns rp lk d)
                \<and> rel @ ''_ids'' \<noteq> n @ ''_id'' \<and> rel @ ''_ids'' \<noteq> n @ ''_ids''"
      if nd: "(n, d) \<in> set after" for n d
    proof -
      from other nd have "n \<noteq> rel" by auto
      from id_column_names(1) [OF this] id_column_names(2) [of rel n] free nd
      show ?thesis by auto
    qed
    then show ?thesis by auto
  qed
  from foldM_relationships_frame [OF a fr1] o1
  have c1: "map_of (rows ! i) (rel @ ''_ids'') = Some (PStr enc)" by simp
  have c2: "map_of (rows ! i) (rel @ ''_id'') = Some (PStr (hd ids))"
    if l: "length ids = 1" and fr: "\<forall>(n, d) \<in> set after. rel @ ''_id'' \<notin> set (inlined_columns rp lk d)"
  proof -
    have fr2: "\<forall>(n, d) \<in> set after. rel @ ''_id'' \<notin> set (inlined_columns rp lk d)
                \<and> rel @ ''_id'' \<noteq> n @ ''_id'' \<and> rel @ ''_id'' \<noteq> n @ ''_ids''"
    proof -
      have "rel @ ''_id'' \<notin> set (inlined_columns rp lk d)
                \<and> rel @ ''_id'' \<noteq> n @ ''_id'' \<and> rel @ ''_id'' \<noteq> n @ ''_ids''"
        if nd: "(n, d) \<in> set after" for n d
      proof -
        from other nd have "n \<noteq> rel" by auto
        from id_column_names(4) [OF this] id_column_names(3) [of rel n] fr nd
        show ?thesis by auto
      qed
      then show ?thesis by auto
    qed
    from o2 l have "\<exists>v. map_of r2 (rel @ ''_id'') = Some v \<and> map PStr ids = [v]" by simp
    then obtain v where v: "map_of r2 (rel @ ''_id'') = Some v" "map PStr ids = [v]" by (elim exE conjE)
    from v(2) have "v = PStr (hd ids)" by (cases ids) auto
    with foldM_relationships_frame [OF a fr2] v(1) show ?thesis by simp
  qed
  have rt: "json_loads_str_array enc = Some (PList (map PStr ids))"
    unfolding enc_def by (rule json_roundtrip_strs)
  show ?thesis
    unfolding out
  proof (intro exI [of _ enc] conjI impI)
    show "map_of (rows ! i) (rel @ ''_ids'') = Some (PStr enc)" by (rule c1)
    show "json_dumps (PList (map PStr ids)) = Some enc" by (rule dumps)
    show "json_loads_str_array enc = Some (PList (map PStr ids))" by (rule rt)
    show "map_of (rows ! i) (rel @ ''_id'') = Some (PStr (hd ids))"
      if "length ids = 1 \<and> (\<forall>(n, d) \<in> set after. rel @ ''_id'' \<notin> set (inlined_columns rp lk d))"
      using that c2 by simp
  qed
qed
theorem relationship_ids_round_trip_witness:
  "(\<exists>enc. map_of (process_jsonapi_response (\<lambda>v. [])
                (page [item_a_b ''p''] [resource ''9'' ''p'' [(''name'', PStr ''n'')]]) ! 0) ''a_ids''
             = Some (PStr enc)
          \<and> json_dumps (PList (map PStr [''7'', ''8''])) = Some enc
          \<and> json_loads_str_array enc = Some (PList (map PStr [''7'', ''8''])))
   \<and> (\<exists>enc. map_of (process_jsonapi_response (\<lambda>v. [])
                (page [item_a_b ''p''] [resource ''9'' ''p'' [(''name'', PStr ''n'')]]) ! 0) ''b_ids''
             = Some (PStr enc)
          \<and> json_loads_str_array enc = Some (PList (map PStr [''9''])))
   \<and> map_of (process_jsonapi_response (\<lambda>v. [])
                (page [item_a_b ''p''] [resource ''9'' ''p'' [(''name'', PStr ''n'')]]) ! 0) ''b_id''
       = Some (PStr ''9'')"
proof -
  let ?rp = "\<lambda>v::pyval. []::string"
  let ?res = "resource ''9'' ''p'' [(''name'', PStr ''n'')]"
  let ?pg = "page [item_a_b ''p''] [?res]"
  let ?b = "PDict [(''data'', reference ''9'' ''p'')]"
  let ?rows = "[[(''t_id'', PStr ''1''),
      (''a_ids'', PStr ([CHR ''['', CHR 0x22, CHR ''7'', CHR 0x22] @ '', '' @ [CHR 0x22, CHR ''8'', CHR 0x22, CHR '']''])),
      (''p_name'', PStr ''n''), (''b_id'', PStr ''9''),
      (''b_ids'', PStr [CHR ''['', CHR 0x22, CHR ''9'', CHR 0x22, CHR '']''])]]"
  have pg: "process_page ?rp ?pg = Some ?rows"
    by (simp add: flatten_defs item_a_b_def two_links_def)
  have data: "py_get ?pg ''data'' (PList []) = Some (PList [item_a_b ''p''])"
    and incl: "py_get ?pg ''included'' (PList []) = Some (PList [?res])"
    by (simp_all add: page_def)
  have lk: "build_included_lookup ?rp (PList [?res]) = Some [(''9_p'', ?res)]"
    by (simp add: flatten_defs)
  have i: "(0::nat) < length [item_a_b ''p'']" by simp
  have rels_a: "py_get ([item_a_b ''p''] ! 0) ''relationships'' (PDict [])
      = Some (PDict ([] @ (''a'', two_links) # [(''b'', ?b)]))"
    and rels_b: "py_get ([item_a_b ''p''] ! 0) ''relationships'' (PDict [])
      = Some (PDict ([(''a'', two_links)] @ (''b'', ?b) # []))"
    by (simp_all add: item_a_b_def)
  have dist_a: "distinct (map fst ([] @ (''a'', two_links) # [(''b'', ?b)]))"
    and dist_b: "distinct (map fst ([(''a'', two_links)] @ (''b'', ?b) # []))"
    by simp_all
  have ids_a: "carried_ids two_links = map PStr [''7'', ''8'']"
    and ids_b: "carried_ids ?b = map PStr [''9'']"
    by (simp_all add: carried_ids_def two_links_def rel_items_of_def reference_def ref_id_def
        List.map_filter_simps)
  have free_a: "\<forall>(n, d) \<in> set [(''b'', ?b)]. ''a'' @ ''_ids'' \<notin> set (inlined_columns ?rp [(''9_p'', ?res)] d)"
    by (simp add: inlined_columns_def inlined_columns_item_def rel_items_of_def reference_def
        resource_def)
  have free_b: "\<forall>(n, d) \<in> set []. ''b'' @ ''_ids'' \<notin> set (inlined_columns ?rp [(''9_p'', ?res)] d)"
    by simp
  have ne_a: "[''7'', ''8''] \<noteq> ([] :: string list)" and ne_b: "[''9''] \<noteq> ([] :: string list)"
    by simp_all
  from relationship_ids_round_trip [OF pg data incl lk i rels_a dist_a ids_a ne_a free_a]
    relationship_ids_round_trip [OF pg data incl lk i rels_b dist_b ids_b ne_b free_b]
  show ?thesis by simp
qed

section \<open>Sync orchestrator: exploding check-ins (\<open>services/data_sync_service.py\<close>)\<close>

subsection \<open>Library functions used by \<open>parse_event_time_ids\<close>\<close>

text \<open>
  \<open>str.strip()\<close> removes leading and trailing whitespace; among the code points below 256
  these are 9 to 13, 28 to 32, 133 and 160.
\<close>

definition py_isspace :: "char \<Rightarrow> bool" where
  "py_isspace c = ((of_char c :: nat) \<in> {9, 10, 11, 12, 13, 28, 29, 30, 31, 32, 133, 160})"

definition py_strip :: "string \<Rightarrow> string" where
  "py_strip s = rev (dropWhile py_isspace (rev (dropWhile py_isspace s)))"

text \<open>
  \<open>str.isdigit()\<close>: a non-empty string of digit characters. Below 256 these are the ASCII
  digits and the superscripts two, three and one (178, 179, 185).
\<close>

definition ascii_digit :: "char \<Rightarrow> bool" where
  "ascii_digit c = (48 \<le> (of_char c :: nat) \<and> (of_char c :: nat) \<le> 57)"

definition py_isdigit :: "string \<Rightarrow> bool" where
  "py_isdigit s = (s \<noteq> [] \<and> (\<forall>c \<in> set s. ascii_digit c \<or> (of_char c :: nat) \<in> {178, 179, 185}))"

text \<open>The number a string of ASCII digits denotes.\<close>

definition dec_val :: "string \<Rightarrow> nat" where
  "dec_val s = foldl (\<lambda>n c. 10 * n + ((of_char c :: nat) - 48)) 0 s"

text \<open>
  The library parsers are modelled exactly where the claims need them and are parameters
  elsewhere (\<open>None\<close> stands for a raised exception):
  \<^item> \<open>json.loads\<close> is \<open>json_loads_str_array\<close> on the arrays of strings that function
    decodes, and \<open>json_loads_ext\<close> on every other text;
  \<^item> \<open>ast.literal_eval\<close> on a string of at most 4300 ASCII digits is the integer it
    denotes, where a nonzero number must not start with a zero (SyntaxError); on every
    other text it is \<open>literal_eval_ext\<close>;
  \<^item> \<open>int()\<close>, which the code calls on strings that pass \<open>isdigit()\<close> only, is the number
    denoted by at most 4300 ASCII digits, raises ValueError when a superscript digit
    occurs, and is \<open>int_ext\<close> on longer strings (whether the interpreter limits the
    length of such a conversion depends on its version and settings).
\<close>

record pylib =
  json_loads_ext :: "string \<Rightarrow> pyval option"
  literal_eval_ext :: "string \<Rightarrow> pyval option"
  int_ext :: "string \<Rightarrow> int option"

definition json_loads :: "pylib \<Rightarrow> string \<Rightarrow> pyval option" where
  "json_loads L s =
     (case json_loads_str_array s of Some v \<Rightarrow> Some v | None \<Rightarrow> json_loads_ext L s)"

definition literal_eval :: "pylib \<Rightarrow> string \<Rightarrow> pyval option" where
  "literal_eval L s =
     (if s \<noteq> [] \<and> (\<forall>c \<in> set s. ascii_digit c) \<and> length s \<le> 4300 then
        (if \<forall>c \<in> set s. c = CHR ''0'' then Some (PInt 0)
         else if hd s = CHR ''0'' then None
         else Some (PInt (int (dec_val s))))
      else literal_eval_ext L s)"

definition py_int :: "pylib \<Rightarrow> string \<Rightarrow> int option" where
  "py_int L s =
     (if \<forall>c \<in> set s. ascii_digit c then
        (if length s \<le> 4300 then Some (int (dec_val s)) else int_ext L s)
      else None)"

subsection \<open>\<open>parse_event_time_ids\<close>\<close>

text \<open>\<open>try: body except: handler\<close>, where \<open>None\<close> is a raised exception.\<close>

definition try_except :: "'a option \<Rightarrow> 'a option \<Rightarrow> 'a option" where
  "try_except body handler = (case body of Some x \<Rightarrow> Some x | None \<Rightarrow> handler)"

text \<open>\<open>parsed if isinstance(parsed, list) else [parsed] if parsed else []\<close>.\<close>

definition wrap_parsed :: "pyval \<Rightarrow> pyval list" where
  "wrap_parsed parsed =
     (case parsed of PList xs \<Rightarrow> xs | _ \<Rightarrow> if py_truthy parsed then [parsed] else [])"

text \<open>
  The function, with \<open>None\<close> for an exception that leaves it. The first \<open>try\<close> runs only
  when the stripped text is bracketed or quoted, and its handler is \<open>pass\<close>: falling
  through to the second \<open>try\<close> is the handler of the first here.
\<close>

definition parse_event_time_ids :: "pylib \<Rightarrow> pyval \<Rightarrow> pyval list option" where
  "parse_event_time_ids L val =
     (case val of
        PList xs \<Rightarrow> Some xs
      | PNone \<Rightarrow> Some []
      | PNaN \<Rightarrow> Some []
      | PStr s \<Rightarrow>
          (let val_stripped = py_strip s in
           if val_stripped = [] then Some []
           else
             try_except
               (if (prefix ''['' val_stripped \<and> suffix '']'' val_stripped)
                   \<or> (prefix [CHR 0x22] val_stripped \<and> suffix [CHR 0x22] val_stripped)
                then map_option wrap_parsed (json_loads L val_stripped)
                else None)
               (try_except
                  (map_option wrap_parsed (literal_eval L val_stripped))
                  (try_except
                     (if py_isdigit val_stripped
                      then map_option (\<lambda>i. [PInt i]) (py_int L val_stripped)
                      else Some [PStr val_stripped])
                     (Some []))))
      | _ \<Rightarrow> try_except (Some [val]) (Some []))"

subsection \<open>Tables\<close>




text \<open>\<open>pd.isna\<close> on a cell: None and NaN are missing values.\<close>

fun py_isna :: "pyval \<Rightarrow> bool" where
  "py_isna PNone = True"
| "py_isna PNaN = True"
| "py_isna v = False"


subsection \<open>\<open>_explode_checkins\<close>\<close>




subsection \<open>Properties of parsing and exploding\<close>




lemma parse_event_time_ids_total: "\<exists>xs. parse_event_time_ids L v = Some xs"
  by (cases v) (auto simp: parse_event_time_ids_def try_except_def Let_def split: option.splits)












definition lib0 :: pylib where
  "lib0 = \<lparr> json_loads_ext = (\<lambda>s. None), literal_eval_ext = (\<lambda>s. None), int_ext = (\<lambda>s. None) \<rparr>"







lemmas parse_defs = parse_event_time_ids_def try_except_def py_strip_def py_isspace_def
  literal_eval_def ascii_digit_def wrap_parsed_def py_isdigit_def py_int_def dec_val_def



subsection \<open>Bare digit strings\<close>

text \<open>
  Claim C10. \<open>parse_event_time_ids\<close> returns a list on every input and never raises; None,
  NaN and blank strings give the empty list. A bare string of digits is meant to become
  the one-element list of its number, as \<open>007\<close> and \<open>56\<close> do; but \<open>0\<close> is read by
  \<open>ast.literal_eval\<close> as the number 0, which is falsy, so \<open>[parsed] if parsed else []\<close>
  drops it and the result is the empty list.
\<close>

theorem zero_digit_string_dropped:
  "parse_event_time_ids L (PStr ''0'') = Some []
   \<and> parse_event_time_ids L (PStr ''007'') = Some [PInt 7]
   \<and> parse_event_time_ids L (PStr ''56'') = Some [PInt 56]
   \<and> (\<exists>xs. parse_event_time_ids L v = Some xs)
   \<and> parse_event_time_ids L PNone = Some [] \<and> parse_event_time_ids L PNaN = Some []
   \<and> parse_event_time_ids L (PStr '' '') = Some []"
  using parse_event_time_ids_total [of L v] by (simp add: parse_defs)

section \<open>API client (\<open>etl/pco_client.py\<close>)\<close>

subsection \<open>Responses and exceptions\<close>

text \<open>
  What the server and the network do is an input of the model: a script holds, for each
  HTTP exchange in turn, whether the connection fails (a refused connection, a timeout)
  or a response arrives. Of a response the code and the session read the status, the
  \<open>Retry-After\<close> header and the JSON body. The header is absent or holds a decimal
  integer, an HTTP date that is so many seconds away, or another text. A redirect is
  followed inside the session and is no exchange of the script.
\<close>

datatype header = Absent | Seconds int | HttpDate int | Malformed

record response =
  status_code :: nat
  retry_after :: header
  body :: pyval

datatype exchange = NoConnection string | Reply response

text \<open>
  The subclasses of \<open>RequestException\<close> that \<open>self._session.get\<close> raises: a connection error
  with its cause, \<open>RetryError\<close> for too many responses of one status, and \<open>InvalidHeader\<close>
  for a \<open>Retry-After\<close> the adapter cannot read. A call of the session raises one of them
  or returns a response.
\<close>

datatype request_error = ConnectionError string | RetryError nat | InvalidHeader

datatype attempt = Raises request_error | Responds response

text \<open>
  The exceptions that leave \<open>get\<close>: a request exception of the session, the HTTPError of
  \<open>raise_for_status\<close> with the status, the final
  \<open>Exception(f"Failed to fetch {url} after {max_retries} retries")\<close>, which holds the URL
  and the bound and nothing else, and the errors that are no request exceptions
  (ValueError, TypeError, AttributeError).
\<close>

datatype exn =
    RequestException request_error
  | HTTPError nat
  | FetchFailed string nat
  | OtherError

datatype 'a outcome = Returned 'a | Raised exn | Pending

text \<open>
  The result of a call: how it ended (\<open>Pending\<close> when the script ends while another
  exchange is due), the sleeps in seconds in order, those of the session's adapter and
  those of \<open>get\<close>, and the number of attempts \<open>get\<close> made, each a call of the session.
\<close>

record 'a run =
  outcome :: "'a outcome"
  waits :: "int list"
  used :: nat

subsection \<open>The session of \<open>_setup_session\<close>\<close>

text \<open>
  \<open>_setup_session\<close> mounts, for both URL schemes, an adapter with
  \<open>Retry(total=3, backoff_factor=1, status_forcelist=[429, 500, 502, 503, 504])\<close> that
  allows GET. The other settings of \<open>Retry\<close> are the library's defaults:
  \<open>raise_on_status\<close> and \<open>respect_retry_after_header\<close> hold, the statuses that honour
  \<open>Retry-After\<close> are 413, 429 and 503, and no backoff is longer than 120 seconds.
\<close>

definition retry_total :: nat where
  "retry_total = 3"

definition backoff_factor :: int where
  "backoff_factor = 1"

definition status_forcelist :: "nat list" where
  "status_forcelist = [429, 500, 502, 503, 504]"

definition RETRY_AFTER_STATUS_CODES :: "nat list" where
  "RETRY_AFTER_STATUS_CODES = [413, 429, 503]"

definition BACKOFF_MAX :: int where
  "BACKOFF_MAX = 120"

text \<open>
  \<open>Retry.get_backoff_time\<close> after \<open>errs\<close> consecutive failed exchanges: nothing before the
  second try, then the factor times \<open>2 ^ (errs - 1)\<close>. \<open>_sleep_backoff\<close> does not call
  \<open>time.sleep\<close> when the time is zero.
\<close>

definition backoff_time :: "nat \<Rightarrow> int" where
  "backoff_time errs = (if errs \<le> 1 then 0 else min BACKOFF_MAX (backoff_factor * 2 ^ (errs - 1)))"

definition sleep_backoff :: "nat \<Rightarrow> int list" where
  "sleep_backoff errs = (if backoff_time errs \<le> 0 then [] else [backoff_time errs])"

text \<open>
  \<open>Retry.sleep(response)\<close>: the sleeps made before the next try, \<open>None\<close> when the header
  cannot be read (\<open>InvalidHeader\<close>: a text that is neither digits nor a date, which
  includes a negative number). A header that gives a positive number of seconds is slept
  for; a date in the past counts as zero, and on zero, as without a header, the backoff
  applies.
\<close>

definition retry_sleep :: "nat \<Rightarrow> header \<Rightarrow> int list option" where
  "retry_sleep errs h =
     (case h of
        Absent \<Rightarrow> Some (sleep_backoff errs)
      | Seconds t \<Rightarrow> if t < 0 then None else if 0 < t then Some [t] else Some (sleep_backoff errs)
      | HttpDate d \<Rightarrow> if 0 < d then Some [d] else Some (sleep_backoff errs)
      | Malformed \<Rightarrow> None)"

text \<open>
  \<open>Retry.is_retry\<close>: a status of the force list, or, while retries are left, a status
  that honours \<open>Retry-After\<close> on a response that carries the header.
\<close>

definition is_retry :: "nat \<Rightarrow> response \<Rightarrow> bool" where
  "is_retry left r =
     (status_code r \<in> set status_forcelist
      \<or> (left \<noteq> 0 \<and> retry_after r \<noteq> Absent \<and> status_code r \<in> set RETRY_AFTER_STATUS_CODES))"

text \<open>
  One call of \<open>self._session.get\<close> with \<open>left\<close> retries left after \<open>errs\<close> failed
  exchanges: the exchanges it consumes, the sleeps it adds, and how it ends (\<open>None\<close> when
  the script ends first). A failed exchange is retried while retries are left; when none
  is left a failed connection raises the connection error and a status of the force list
  raises \<open>RetryError\<close>, so that no response with such a status is ever returned.
\<close>

fun send :: "nat \<Rightarrow> nat \<Rightarrow> exchange list \<Rightarrow> int list \<Rightarrow> attempt option \<times> int list \<times> exchange list" where
  "send left errs [] ws = (None, ws, [])"
| "send left errs (NoConnection msg # rest) ws =
     (if left = 0 then (Some (Raises (ConnectionError msg)), ws, rest)
      else send (left - 1) (Suc errs) rest (ws @ sleep_backoff (Suc errs)))"
| "send left errs (Reply r # rest) ws =
     (if is_retry left r then
        (if left = 0 then (Some (Raises (RetryError (status_code r))), ws, rest)
         else
           (case retry_sleep (Suc errs) (retry_after r) of
              None \<Rightarrow> (Some (Raises InvalidHeader), ws, rest)
            | Some w \<Rightarrow> send (left - 1) (Suc errs) rest (ws @ w)))
      else (Some (Responds r), ws, rest))"

definition session_get :: "exchange list \<Rightarrow> int list \<Rightarrow> attempt option \<times> int list \<times> exchange list" where
  "session_get script ws = send retry_total 0 script ws"

subsection \<open>\<open>PCOClient.get\<close>\<close>

definition max_retries :: nat where
  "max_retries = 5"

text \<open>\<open>len(x)\<close>: TypeError on None, a bool or a number.\<close>

fun py_len :: "pyval \<Rightarrow> nat option" where
  "py_len (PList xs) = Some (length xs)"
| "py_len (PDict kvs) = Some (length kvs)"
| "py_len (PStr s) = Some (length s)"
| "py_len v = None"

text \<open>
  The lines after \<open>raise_for_status\<close>: the body is returned once \<open>len\<close> of its \<open>data\<close> and
  of its \<open>included\<close> have been taken for the log.
\<close>

definition read_body :: "pyval \<Rightarrow> pyval option" where
  "read_body json_data =
     do {
       d \<leftarrow> py_get json_data ''data'' (PList []);
       data_count \<leftarrow> py_len d;
       i \<leftarrow> py_get json_data ''included'' (PList []);
       included_count \<leftarrow> py_len i;
       Some json_data
     }"

text \<open>
  The \<open>while retry_count < max_retries\<close> loop; every turn calls the session once.
  \<open>_handle_rate_limit\<close> sleeps for the header value, 60 when absent; \<open>int()\<close> of a header
  that is no integer and \<open>time.sleep\<close> of a negative number raise ValueError, which the
  handler of the loop does not catch.
\<close>

function get_loop :: "string \<Rightarrow> nat \<Rightarrow> exchange list \<Rightarrow> int list \<Rightarrow> nat \<Rightarrow> pyval run" where
  "get_loop url retry_count script ws n =
     (if retry_count < max_retries then
        (case session_get script ws of
           (None, ws', rest) \<Rightarrow> \<lparr> outcome = Pending, waits = ws', used = n + 1 \<rparr>
         | (Some a, ws', rest) \<Rightarrow>
             (case a of
                Raises e \<Rightarrow>
                  if retry_count + 1 \<ge> max_retries
                  then \<lparr> outcome = Raised (RequestException e), waits = ws', used = n + 1 \<rparr>
                  else get_loop url (retry_count + 1) rest (ws' @ [2 ^ (retry_count + 1)]) (n + 1)
              | Responds r \<Rightarrow>
                  if status_code r = 429 then
                    (case retry_after r of
                       Absent \<Rightarrow> get_loop url (retry_count + 1) rest (ws' @ [60]) (n + 1)
                     | Seconds t \<Rightarrow>
                         if t < 0 then \<lparr> outcome = Raised OtherError, waits = ws', used = n + 1 \<rparr>
                         else get_loop url (retry_count + 1) rest (ws' @ [t]) (n + 1)
                     | _ \<Rightarrow> \<lparr> outcome = Raised OtherError, waits = ws', used = n + 1 \<rparr>)
                  else if 400 \<le> status_code r \<and> status_code r < 600 then
                    (if retry_count + 1 \<ge> max_retries
                     then \<lparr> outcome = Raised (HTTPError (status_code r)), waits = ws', used = n + 1 \<rparr>
                     else get_loop url (retry_count + 1) rest (ws' @ [2 ^ (retry_count + 1)]) (n + 1))
                  else
                    (case read_body (body r) of
                       None \<Rightarrow> \<lparr> outcome = Raised OtherError, waits = ws', used = n + 1 \<rparr>
                     | Some json_data \<Rightarrow> \<lparr> outcome = Returned json_data, waits = ws', used = n + 1 \<rparr>)))
      else \<lparr> outcome = Raised (FetchFailed url max_retries), waits = ws, used = n \<rparr>)"
  by pat_completeness auto
termination
  by (relation "measure (\<lambda>(url, retry_count, script, ws, n). max_retries - retry_count)") auto

declare get_loop.simps [simp del]

text \<open>\<open>get\<close> for the URL \<open>f"{BASE_URL}{endpoint}"\<close>; the query parameters do not enter the loop.\<close>

definition get :: "string \<Rightarrow> exchange list \<Rightarrow> pyval run" where
  "get url script = get_loop url 0 script [] 0"

text \<open>The \<open>Retry-After\<close> values that the responses of a script carry.\<close>

fun advertised :: "exchange list \<Rightarrow> int list" where
  "advertised [] = []"
| "advertised (NoConnection msg # rest) = advertised rest"
| "advertised (Reply r # rest) =
     (case retry_after r of Seconds t \<Rightarrow> [t] | HttpDate d \<Rightarrow> [d] | _ \<Rightarrow> []) @ advertised rest"

text \<open>Responses for the examples.\<close>

definition rate_limit_response :: "header \<Rightarrow> exchange" where
  "rate_limit_response h = Reply \<lparr> status_code = 429, retry_after = h, body = PNone \<rparr>"

definition error_response :: "nat \<Rightarrow> exchange" where
  "error_response status = Reply \<lparr> status_code = status, retry_after = Absent, body = PNone \<rparr>"

definition ok_response :: "pyval \<Rightarrow> exchange" where
  "ok_response json_data = Reply \<lparr> status_code = 200, retry_after = Absent, body = json_data \<rparr>"

subsection \<open>What the session returns\<close>

lemma send_not_forced:
  "send left errs script ws = (Some (Responds r), w, rest) \<Longrightarrow> status_code r \<notin> set status_forcelist"
proof (induction left errs script ws rule: send.induct)
  case (1 left errs ws)
  then show ?case by simp
next
  case (2 left errs msg rest' ws)
  then show ?case by (simp split: if_splits)
next
  case (3 left errs r' rest' ws)
  then show ?case by (auto simp: is_retry_def split: if_splits option.splits)
qed

lemma session_not_rate_limited:
  "session_get script ws = (Some (Responds r), w, rest) \<Longrightarrow> status_code r \<noteq> 429"
  using send_not_forced [of retry_total 0 script ws r w rest]
  by (auto simp: session_get_def status_forcelist_def)

lemma sleep_backoff_values: "errs \<le> 3 \<Longrightarrow> set (sleep_backoff errs) \<subseteq> {2, 4}"
proof -
  assume "errs \<le> 3"
  then have "errs = 0 \<or> errs = 1 \<or> errs = 2 \<or> errs = 3" by arith
  then show ?thesis
    by (elim disjE) (simp_all add: sleep_backoff_def backoff_time_def BACKOFF_MAX_def backoff_factor_def)
qed

lemma retry_sleep_values:
  assumes "errs \<le> 3" "retry_sleep errs h = Some w"
  shows "set w \<subseteq> {2, 4} \<union> set (case h of Seconds t \<Rightarrow> [t] | HttpDate d \<Rightarrow> [d] | _ \<Rightarrow> [])"
  using assms sleep_backoff_values [of errs]
  by (cases h) (auto simp: retry_sleep_def split: if_splits)

lemma send_waits:
  assumes "send left errs script ws = (a, w, rest)" "left + errs \<le> 3"
  shows "set w \<subseteq> set ws \<union> {2, 4} \<union> set (advertised script)
         \<and> set (advertised rest) \<subseteq> set (advertised script)"
  using assms
proof (induction left errs script ws rule: send.induct)
  case (1 left errs ws)
  then show ?case by auto
next
  case (2 left errs msg rest' ws)
  show ?case
  proof (cases "left = 0")
    case True
    with 2 show ?thesis by auto
  next
    case False
    with "2.prems" have s: "send (left - 1) (Suc errs) rest' (ws @ sleep_backoff (Suc errs)) = (a, w, rest)"
      and b: "(left - 1) + Suc errs \<le> 3" and e: "Suc errs \<le> 3" by simp_all
    from "2.IH" [OF False s b] sleep_backoff_values [OF e] show ?thesis by auto
  qed
next
  case (3 left errs r rest' ws)
  show ?case
  proof (cases "is_retry left r \<and> left \<noteq> 0")
    case False
    with "3.prems" show ?thesis by (auto split: if_splits)
  next
    case True
    then have ir: "is_retry left r" and t: "left \<noteq> 0" by simp_all
    from "3.prems" t have e: "Suc errs \<le> 3" and b: "(left - 1) + Suc errs \<le> 3" by simp_all
    show ?thesis
    proof (cases "retry_sleep (Suc errs) (retry_after r)")
      case None
      with "3.prems" ir t show ?thesis by auto
    next
      case (Some w0)
      with "3.prems" ir t have s: "send (left - 1) (Suc errs) rest' (ws @ w0) = (a, w, rest)" by simp
      from "3.IH" [OF ir t Some s b] retry_sleep_values [OF e Some] show ?thesis by auto
    qed
  qed
qed

subsection \<open>What \<open>get\<close> raises and how long it waits\<close>

lemma get_loop_not_generic:
  "retry_count < max_retries \<Longrightarrow> outcome (get_loop url retry_count script ws n) \<noteq> Raised (FetchFailed u k)"
proof (induction url retry_count script ws n rule: get_loop.induct)
  case (1 url retry_count script ws n)
  obtain a ws' rest where s: "session_get script ws = (a, ws', rest)" by (cases "session_get script ws")
  show ?case
  proof (cases a)
    case None
    with s "1.prems" show ?thesis by (subst get_loop.simps) simp
  next
    case (Some at)
    show ?thesis
    proof (cases at)
      case (Raises e)
      show ?thesis
      proof (cases "retry_count + 1 \<ge> max_retries")
        case True
        with s Some Raises "1.prems" show ?thesis by (subst get_loop.simps) simp
      next
        case False
        then have lt: "retry_count + 1 < max_retries" by simp
        from "1.IH"(1) [OF "1.prems" s [symmetric] Some refl Raises False lt]
        have "outcome (get_loop url (retry_count + 1) rest (ws' @ [2 ^ (retry_count + 1)]) (n + 1))
                \<noteq> Raised (FetchFailed u k)" by simp
        with s Some Raises "1.prems" False show ?thesis by (subst get_loop.simps) simp
      qed
    next
      case (Responds r)
      from session_not_rate_limited [of script ws r ws' rest] s Some Responds
      have nr: "status_code r \<noteq> 429" by simp
      show ?thesis
      proof (cases "400 \<le> status_code r \<and> status_code r < 600")
        case False
        with s Some Responds "1.prems" nr show ?thesis
          by (subst get_loop.simps) (auto split: option.splits)
      next
        case err: True
        show ?thesis
        proof (cases "retry_count + 1 \<ge> max_retries")
          case True
          with s Some Responds "1.prems" nr err show ?thesis by (subst get_loop.simps) simp
        next
          case False
          then have lt: "retry_count + 1 < max_retries" by simp
          from "1.IH"(4) [OF "1.prems" s [symmetric] Some refl Responds nr err False lt]
          have "outcome (get_loop url (retry_count + 1) rest (ws' @ [2 ^ (retry_count + 1)]) (n + 1))
                  \<noteq> Raised (FetchFailed u k)" by simp
          with s Some Responds "1.prems" nr err False show ?thesis by (subst get_loop.simps) simp
        qed
      qed
    qed
  qed
qed

lemma used_le:
  "retry_count < max_retries \<Longrightarrow>
   used (get_loop url retry_count script ws n) \<le> n + (max_retries - retry_count)"
proof (induction url retry_count script ws n rule: get_loop.induct)
  case (1 url retry_count script ws n)
  obtain a ws' rest where s: "session_get script ws = (a, ws', rest)" by (cases "session_get script ws")
  show ?case
  proof (cases a)
    case None
    with s "1.prems" show ?thesis by (subst get_loop.simps) simp
  next
    case (Some at)
    show ?thesis
    proof (cases at)
      case (Raises e)
      show ?thesis
      proof (cases "retry_count + 1 \<ge> max_retries")
        case True
        with s Some Raises "1.prems" show ?thesis by (subst get_loop.simps) simp
      next
        case False
        then have lt: "retry_count + 1 < max_retries" by simp
        from "1.IH"(1) [OF "1.prems" s [symmetric] Some refl Raises False lt]
        have "used (get_loop url (retry_count + 1) rest (ws' @ [2 ^ (retry_count + 1)]) (n + 1))
                \<le> n + 1 + (max_retries - (retry_count + 1))" .
        with s Some Raises "1.prems" False show ?thesis by (subst get_loop.simps) simp
      qed
    next
      case (Responds r)
      from session_not_rate_limited [of script ws r ws' rest] s Some Responds
      have nr: "status_code r \<noteq> 429" by simp
      show ?thesis
      proof (cases "400 \<le> status_code r \<and> status_code r < 600")
        case False
        with s Some Responds "1.prems" nr show ?thesis
          by (subst get_loop.simps) (auto split: option.splits)
      next
        case err: True
        show ?thesis
        proof (cases "retry_count + 1 \<ge> max_retries")
          case True
          with s Some Responds "1.prems" nr err show ?thesis by (subst get_loop.simps) simp
        next
          case False
          then have lt: "retry_count + 1 < max_retries" by simp
          from "1.IH"(4) [OF "1.prems" s [symmetric] Some refl Responds nr err False lt]
          have "used (get_loop url (retry_count + 1) rest (ws' @ [2 ^ (retry_count + 1)]) (n + 1))
                  \<le> n + 1 + (max_retries - (retry_count + 1))" .
          with s Some Responds "1.prems" nr err False show ?thesis by (subst get_loop.simps) simp
        qed
      qed
    qed
  qed
qed

lemma backoff_of_get: "retry_count + 1 < max_retries \<Longrightarrow> (2::int) ^ (retry_count + 1) \<in> {2, 4, 8, 16}"
proof -
  assume "retry_count + 1 < max_retries"
  then have "retry_count = 0 \<or> retry_count = 1 \<or> retry_count = 2 \<or> retry_count = 3"
    by (simp add: max_retries_def) arith
  then show ?thesis by (elim disjE) simp_all
qed

lemma get_loop_waits:
  "retry_count < max_retries \<Longrightarrow>
   set (waits (get_loop url retry_count script ws n)) \<subseteq> set ws \<union> {2, 4, 8, 16} \<union> set (advertised script)"
proof (induction url retry_count script ws n rule: get_loop.induct)
  case (1 url retry_count script ws n)
  obtain a ws' rest where s: "session_get script ws = (a, ws', rest)" by (cases "session_get script ws")
  from send_waits [of retry_total 0 script ws a ws' rest] s
  have w: "set ws' \<subseteq> set ws \<union> {2, 4} \<union> set (advertised script)"
    and r: "set (advertised rest) \<subseteq> set (advertised script)"
    by (simp_all add: session_get_def retry_total_def)
  from w have w': "set ws' \<subseteq> set ws \<union> {2, 4, 8, 16} \<union> set (advertised script)" by auto
  show ?case
  proof (cases a)
    case None
    with s "1.prems" w' show ?thesis by (subst get_loop.simps) simp
  next
    case (Some at)
    show ?thesis
    proof (cases at)
      case (Raises e)
      show ?thesis
      proof (cases "retry_count + 1 \<ge> max_retries")
        case True
        with s Some Raises "1.prems" w' show ?thesis by (subst get_loop.simps) simp
      next
        case False
        then have lt: "retry_count + 1 < max_retries" by simp
        from "1.IH"(1) [OF "1.prems" s [symmetric] Some refl Raises False lt]
        have "set (waits (get_loop url (retry_count + 1) rest (ws' @ [2 ^ (retry_count + 1)]) (n + 1)))
                \<subseteq> set (ws' @ [2 ^ (retry_count + 1)]) \<union> {2, 4, 8, 16} \<union> set (advertised rest)" .
        with w' r backoff_of_get [OF lt]
        have "set (waits (get_loop url (retry_count + 1) rest (ws' @ [2 ^ (retry_count + 1)]) (n + 1)))
                \<subseteq> set ws \<union> {2, 4, 8, 16} \<union> set (advertised script)" by auto
        with s Some Raises "1.prems" False show ?thesis by (subst get_loop.simps) simp
      qed
    next
      case (Responds r')
      from session_not_rate_limited [of script ws r' ws' rest] s Some Responds
      have nr: "status_code r' \<noteq> 429" by simp
      show ?thesis
      proof (cases "400 \<le> status_code r' \<and> status_code r' < 600")
        case False
        with s Some Responds "1.prems" nr w' show ?thesis
          by (subst get_loop.simps) (auto split: option.splits)
      next
        case err: True
        show ?thesis
        proof (cases "retry_count + 1 \<ge> max_retries")
          case True
          with s Some Responds "1.prems" nr err w' show ?thesis by (subst get_loop.simps) simp
        next
          case False
          then have lt: "retry_count + 1 < max_retries" by simp
          from "1.IH"(4) [OF "1.prems" s [symmetric] Some refl Responds nr err False lt]
          have "set (waits (get_loop url (retry_count + 1) rest (ws' @ [2 ^ (retry_count + 1)]) (n + 1)))
                  \<subseteq> set (ws' @ [2 ^ (retry_count + 1)]) \<union> {2, 4, 8, 16} \<union> set (advertised rest)" .
          with w' r backoff_of_get [OF lt]
          have "set (waits (get_loop url (retry_count + 1) rest (ws' @ [2 ^ (retry_count + 1)]) (n + 1)))
                  \<subseteq> set ws \<union> {2, 4, 8, 16} \<union> set (advertised script)" by auto
          with s Some Responds "1.prems" nr err False show ?thesis by (subst get_loop.simps) simp
        qed
      qed
    qed
  qed
qed

subsection \<open>Rate limits and retries of \<open>get\<close>\<close>

text \<open>
  Claim C4. \<open>get\<close> makes at most 5 attempts; a failed attempt but the last is followed by a
  wait of 2, 4, 8 and 16 seconds in turn, and when the fifth fails its own exception is
  raised, so that the terminal failure always carries the last error. A response with
  status 429 and \<open>Retry-After: 2\<close> followed by a success causes exactly one wait, of 2
  seconds. The wait of 60 seconds that \<open>_handle_rate_limit\<close> makes on a 429 without the
  header never happens: the adapter that \<open>_setup_session\<close> mounts retries the statuses
  429, 500, 502, 503 and 504 itself, three times for a call, after its own backoff (none
  before the first retry, then 2 and 4 seconds) when there is no usable \<open>Retry-After\<close>,
  and raises \<open>RetryError\<close> when the status persists. No response with status 429 is
  returned to \<open>get\<close>, so its branch for that status does not run, the final generic
  exception is never raised, and every wait is one of 2, 4, 8 and 16 seconds or a
  \<open>Retry-After\<close> value that the server sent.
\<close>

theorem rate_limit_default_never_applies:
  "get ''u'' [rate_limit_response Absent, ok_response (PDict [])]
     = \<lparr> outcome = Returned (PDict []), waits = [], used = 1 \<rparr>
   \<and> get ''u'' (replicate 3 (rate_limit_response Absent) @ [ok_response (PDict [])])
     = \<lparr> outcome = Returned (PDict []), waits = [2, 4], used = 1 \<rparr>
   \<and> get ''u'' (replicate 4 (rate_limit_response Absent) @ [ok_response (PDict [])])
     = \<lparr> outcome = Returned (PDict []), waits = [2, 4, 2], used = 2 \<rparr>
   \<and> get ''u'' (replicate 20 (rate_limit_response Absent))
     = \<lparr> outcome = Raised (RequestException (RetryError 429)),
         waits = [2, 4, 2, 2, 4, 4, 2, 4, 8, 2, 4, 16, 2, 4], used = 5 \<rparr>
   \<and> get ''u'' [rate_limit_response (Seconds 2), ok_response (PDict [])]
     = \<lparr> outcome = Returned (PDict []), waits = [2], used = 1 \<rparr>
   \<and> get ''u'' (replicate 20 (rate_limit_response (Seconds 7)))
     = \<lparr> outcome = Raised (RequestException (RetryError 429)),
         waits = [7, 7, 7, 2, 7, 7, 7, 4, 7, 7, 7, 8, 7, 7, 7, 16, 7, 7, 7], used = 5 \<rparr>
   \<and> get ''u'' (replicate 20 (NoConnection ''refused''))
     = \<lparr> outcome = Raised (RequestException (ConnectionError ''refused'')),
         waits = [2, 4, 2, 2, 4, 4, 2, 4, 8, 2, 4, 16, 2, 4], used = 5 \<rparr>
   \<and> get ''u'' (replicate 20 (error_response 503))
     = \<lparr> outcome = Raised (RequestException (RetryError 503)),
         waits = [2, 4, 2, 2, 4, 4, 2, 4, 8, 2, 4, 16, 2, 4], used = 5 \<rparr>
   \<and> get ''u'' (replicate 5 (error_response 501))
     = \<lparr> outcome = Raised (HTTPError 501), waits = [2, 4, 8, 16], used = 5 \<rparr>
   \<and> get ''u'' (replicate 5 (error_response 404))
     = \<lparr> outcome = Raised (HTTPError 404), waits = [2, 4, 8, 16], used = 5 \<rparr>
   \<and> get ''u'' [rate_limit_response (Seconds 0), ok_response (PDict [])]
     = \<lparr> outcome = Returned (PDict []), waits = [], used = 1 \<rparr>
   \<and> get ''u'' [rate_limit_response (HttpDate 5), ok_response (PDict [])]
     = \<lparr> outcome = Returned (PDict []), waits = [5], used = 1 \<rparr>
   \<and> get ''u'' [rate_limit_response (HttpDate (- 5)), ok_response (PDict [])]
     = \<lparr> outcome = Returned (PDict []), waits = [], used = 1 \<rparr>
   \<and> get ''u'' [rate_limit_response Malformed, rate_limit_response (Seconds (- 5)), ok_response (PDict [])]
     = \<lparr> outcome = Returned (PDict []), waits = [2, 4], used = 3 \<rparr>
   \<and> get ''u'' (replicate 20 (Reply \<lparr> status_code = 413, retry_after = Seconds 3, body = PNone \<rparr>))
     = \<lparr> outcome = Raised (HTTPError 413),
         waits = [3, 3, 3, 2, 3, 3, 3, 4, 3, 3, 3, 8, 3, 3, 3, 16, 3, 3, 3], used = 5 \<rparr>
   \<and> outcome (get url script) \<noteq> Raised (FetchFailed u k)
   \<and> used (get url script) \<le> max_retries \<and> max_retries = 5
   \<and> set (waits (get url script)) \<subseteq> {2, 4, 8, 16} \<union> set (advertised script)
   \<and> (session_get script ws = (Some (Responds r), w, rest) \<longrightarrow> status_code r \<notin> set status_forcelist)"
proof -
  note ev = get_def get_loop.simps session_get_def retry_total_def is_retry_def status_forcelist_def
    RETRY_AFTER_STATUS_CODES_def retry_sleep_def sleep_backoff_def backoff_time_def BACKOFF_MAX_def
    backoff_factor_def max_retries_def rate_limit_response_def error_response_def ok_response_def
    read_body_def
  have r3: "replicate 3 x = [x, x, x]" and r4: "replicate 4 x = [x, x, x, x]"
    and r5: "replicate 5 x = [x, x, x, x, x]"
    and r20: "replicate 20 x = [x, x, x, x, x, x, x, x, x, x, x, x, x, x, x, x, x, x, x, x]"
    for x :: exchange
    by (simp_all add: numeral_eq_Suc)
  have 1: "get ''u'' [rate_limit_response Absent, ok_response (PDict [])]
     = \<lparr> outcome = Returned (PDict []), waits = [], used = 1 \<rparr>"
    by (simp add: ev)
  have 2: "get ''u'' (replicate 3 (rate_limit_response Absent) @ [ok_response (PDict [])])
     = \<lparr> outcome = Returned (PDict []), waits = [2, 4], used = 1 \<rparr>"
    unfolding r3 by (simp add: ev)
  have 3: "get ''u'' (replicate 4 (rate_limit_response Absent) @ [ok_response (PDict [])])
     = \<lparr> outcome = Returned (PDict []), waits = [2, 4, 2], used = 2 \<rparr>"
    unfolding r4 by (simp add: ev)
  have 4: "get ''u'' (replicate 20 (rate_limit_response Absent))
     = \<lparr> outcome = Raised (RequestException (RetryError 429)),
         waits = [2, 4, 2, 2, 4, 4, 2, 4, 8, 2, 4, 16, 2, 4], used = 5 \<rparr>"
    unfolding r20 by (simp add: ev)
  have 5: "get ''u'' [rate_limit_response (Seconds 2), ok_response (PDict [])]
     = \<lparr> outcome = Returned (PDict []), waits = [2], used = 1 \<rparr>"
    by (simp add: ev)
  have 6: "get ''u'' (replicate 20 (rate_limit_response (Seconds 7)))
     = \<lparr> outcome = Raised (RequestException (RetryError 429)),
         waits = [7, 7, 7, 2, 7, 7, 7, 4, 7, 7, 7, 8, 7, 7, 7, 16, 7, 7, 7], used = 5 \<rparr>"
    unfolding r20 by (simp add: ev)
  have 7: "get ''u'' (replicate 20 (NoConnection ''refused''))
     = \<lparr> outcome = Raised (RequestException (ConnectionError ''refused'')),
         waits = [2, 4, 2, 2, 4, 4, 2, 4, 8, 2, 4, 16, 2, 4], used = 5 \<rparr>"
    unfolding r20 by (simp add: ev)
  have 8: "get ''u'' (replicate 20 (error_response 503))
     = \<lparr> outcome = Raised (RequestException (RetryError 503)),
         waits = [2, 4, 2, 2, 4, 4, 2, 4, 8, 2, 4, 16, 2, 4], used = 5 \<rparr>"
    unfolding r20 by (simp add: ev)
  have 9: "get ''u'' (replicate 5 (error_response 501))
     = \<lparr> outcome = Raised (HTTPError 501), waits = [2, 4, 8, 16], used = 5 \<rparr>"
    unfolding r5 by (simp add: ev)
  have 10: "get ''u'' (replicate 5 (error_response 404))
     = \<lparr> outcome = Raised (HTTPError 404), waits = [2, 4, 8, 16], used = 5 \<rparr>"
    unfolding r5 by (simp add: ev)
  have e1: "get ''u'' [rate_limit_response (Seconds 0), ok_response (PDict [])]
     = \<lparr> outcome = Returned (PDict []), waits = [], used = 1 \<rparr>"
    by (simp add: ev)
  have e2: "get ''u'' [rate_limit_response (HttpDate 5), ok_response (PDict [])]
     = \<lparr> outcome = Returned (PDict []), waits = [5], used = 1 \<rparr>"
    by (simp add: ev)
  have e3: "get ''u'' [rate_limit_response (HttpDate (- 5)), ok_response (PDict [])]
     = \<lparr> outcome = Returned (PDict []), waits = [], used = 1 \<rparr>"
    by (simp add: ev)
  have e4: "get ''u'' [rate_limit_response Malformed, rate_limit_response (Seconds (- 5)), ok_response (PDict [])]
     = \<lparr> outcome = Returned (PDict []), waits = [2, 4], used = 3 \<rparr>"
    by (simp add: ev)
  have e5: "get ''u'' (replicate 20 (Reply \<lparr> status_code = 413, retry_after = Seconds 3, body = PNone \<rparr>))
     = \<lparr> outcome = Raised (HTTPError 413),
         waits = [3, 3, 3, 2, 3, 3, 3, 4, 3, 3, 3, 8, 3, 3, 3, 16, 3, 3, 3], used = 5 \<rparr>"
    unfolding r20 by (simp add: ev)
  have 11: "outcome (get url script) \<noteq> Raised (FetchFailed u k)"
    unfolding get_def by (rule get_loop_not_generic) (simp add: max_retries_def)
  have 12: "used (get url script) \<le> max_retries"
    using used_le [of 0 url script "[]" 0] by (simp add: get_def max_retries_def)
  have 13: "max_retries = 5" by (simp add: max_retries_def)
  have 14: "set (waits (get url script)) \<subseteq> {2, 4, 8, 16} \<union> set (advertised script)"
    using get_loop_waits [of 0 url script "[]" 0] by (simp add: get_def max_retries_def)
  have 15: "status_code r \<notin> set status_forcelist" if "session_get script ws = (Some (Responds r), w, rest)"
    using that unfolding session_get_def by (rule send_not_forced)
  from 1 2 3 4 5 6 7 8 9 10 e1 e2 e3 e4 e5 11 12 13 14 15 show ?thesis by (intro conjI impI)
qed

theorem rate_limit_default_never_applies_witness:
  "session_get [error_response 413, ok_response (PDict [])] []
     = (Some (Responds \<lparr> status_code = 413, retry_after = Absent, body = PNone \<rparr>), [],
        [ok_response (PDict [])])
   \<and> 413 \<notin> set status_forcelist \<and> 60 \<notin> set (waits (get ''u'' (replicate 20 (rate_limit_response Absent))))"
proof -
  have s: "session_get [error_response 413, ok_response (PDict [])] []
     = (Some (Responds \<lparr> status_code = 413, retry_after = Absent, body = PNone \<rparr>), [],
        [ok_response (PDict [])])"
    by (simp add: session_get_def error_response_def is_retry_def status_forcelist_def
        RETRY_AFTER_STATUS_CODES_def)
  note t = rate_limit_default_never_applies
    [of "''u''" "[error_response 413, ok_response (PDict [])]" "''u''" 5 "[]"
        "\<lparr> status_code = 413, retry_after = Absent, body = PNone \<rparr>" "[]" "[ok_response (PDict [])]"]
  from t s have a: "413 \<notin> set status_forcelist" by simp
  from t have "get ''u'' (replicate 20 (rate_limit_response Absent))
     = \<lparr> outcome = Raised (RequestException (RetryError 429)),
         waits = [2, 4, 2, 2, 4, 4, 2, 4, 8, 2, 4, 16, 2, 4], used = 5 \<rparr>"
    by (elim conjE) assumption
  then have b: "60 \<notin> set (waits (get ''u'' (replicate 20 (rate_limit_response Absent))))"
    by simp
  from s a b show ?thesis by simp
qed

subsection \<open>\<open>PCOClient.get_all_pages\<close>\<close>

text \<open>
  Each turn of the loop calls \<open>self.get\<close> once; the script holds what these calls do, in
  order: raise, or return a decoded response. The result records the requests made, as
  the pairs of \<open>per_page\<close> and \<open>offset\<close> in \<open>params\<close>. (The sleep of 0.1 s between pages
  has no effect on the result and is left out.)
\<close>

datatype page_result = GetRaised exn | GetReturned pyval

record paging =
  result :: "pyval list outcome"
  requests :: "(int \<times> nat) list"

text \<open>
  \<open>'next' not in links or not links['next']\<close> for \<open>links = response.get('links', {})\<close>;
  \<open>None\<close> when it raises.
\<close>

definition no_next :: "pyval \<Rightarrow> bool option" where
  "no_next response =
     do {
       links \<leftarrow> py_get response ''links'' (PDict []);
       has \<leftarrow> py_contains links ''next'';
       if \<not> has then Some True
       else do { nxt \<leftarrow> py_getitem links ''next''; Some (\<not> py_truthy nxt) }
     }"

fun get_all_pages_loop ::
  "int \<Rightarrow> page_result list \<Rightarrow> nat \<Rightarrow> pyval list \<Rightarrow> (int \<times> nat) list \<Rightarrow> paging" where
  "get_all_pages_loop pp [] offset all_data reqs = \<lparr> result = Pending, requests = reqs \<rparr>"
| "get_all_pages_loop pp (p # rest) offset all_data reqs =
     (case p of
        GetRaised e \<Rightarrow> \<lparr> result = Raised e, requests = reqs @ [(pp, offset)] \<rparr>
      | GetReturned response \<Rightarrow>
          (case py_get response ''data'' (PList []) of
             None \<Rightarrow> \<lparr> result = Raised OtherError, requests = reqs @ [(pp, offset)] \<rparr>
           | Some data_items \<Rightarrow>
               if \<not> py_truthy data_items
               then \<lparr> result = Returned all_data, requests = reqs @ [(pp, offset)] \<rparr>
               else
                 (case py_iter data_items of
                    None \<Rightarrow> \<lparr> result = Raised OtherError, requests = reqs @ [(pp, offset)] \<rparr>
                  | Some items \<Rightarrow>
                      (case no_next response of
                         None \<Rightarrow> \<lparr> result = Raised OtherError, requests = reqs @ [(pp, offset)] \<rparr>
                       | Some True \<Rightarrow>
                           \<lparr> result = Returned (all_data @ items), requests = reqs @ [(pp, offset)] \<rparr>
                       | Some False \<Rightarrow>
                           (case py_len data_items of
                              None \<Rightarrow> \<lparr> result = Raised OtherError, requests = reqs @ [(pp, offset)] \<rparr>
                            | Some n \<Rightarrow>
                                get_all_pages_loop pp rest (offset + n) (all_data @ items)
                                  (reqs @ [(pp, offset)]))))))"

declare get_all_pages_loop.simps [simp del]

text \<open>\<open>params['per_page'] = min(per_page, 100)\<close>, then the loop from offset 0.\<close>

definition get_all_pages :: "int \<Rightarrow> page_result list \<Rightarrow> paging" where
  "get_all_pages per_page script = get_all_pages_loop (min per_page 100) script 0 [] []"

subsection \<open>Pages\<close>

text \<open>
  A page is a response whose \<open>data\<close> is a list. A full page has items and a next link;
  a last page has no items, or no next link.
\<close>

definition data_of :: "page_result \<Rightarrow> pyval list" where
  "data_of p =
     (case p of
        GetReturned r \<Rightarrow> (case py_get r ''data'' (PList []) of Some (PList d) \<Rightarrow> d | _ \<Rightarrow> [])
      | GetRaised e \<Rightarrow> [])"

definition is_page :: "page_result \<Rightarrow> bool" where
  "is_page p =
     (case p of
        GetReturned r \<Rightarrow> (case py_get r ''data'' (PList []) of Some (PList d) \<Rightarrow> True | _ \<Rightarrow> False)
      | GetRaised e \<Rightarrow> False)"

definition next_missing :: "page_result \<Rightarrow> bool option" where
  "next_missing p = (case p of GetReturned r \<Rightarrow> no_next r | GetRaised e \<Rightarrow> None)"

definition full_page :: "page_result \<Rightarrow> bool" where
  "full_page p = (is_page p \<and> data_of p \<noteq> [] \<and> next_missing p = Some False)"

definition last_page :: "page_result \<Rightarrow> bool" where
  "last_page p = (is_page p \<and> (data_of p = [] \<or> next_missing p = Some True))"

text \<open>The offsets of the requests for the given pages, the first being \<open>off\<close>.\<close>

fun offsets_from :: "nat \<Rightarrow> page_result list \<Rightarrow> nat list" where
  "offsets_from off [] = []"
| "offsets_from off (p # ps) = off # offsets_from (off + length (data_of p)) ps"

text \<open>A response with the given items and next link, for the examples.\<close>

definition api_page :: "pyval list \<Rightarrow> pyval \<Rightarrow> page_result" where
  "api_page items nxt =
     GetReturned (PDict [(''data'', PList items), (''links'', PDict [(''next'', nxt)])])"

subsection \<open>Steps of the pagination loop\<close>

lemma loop_full_page:
  assumes "full_page p"
  shows "get_all_pages_loop pp (p # rest) off acc reqs
       = get_all_pages_loop pp rest (off + length (data_of p)) (acc @ data_of p) (reqs @ [(pp, off)])"
proof -
  from assms obtain r d where p: "p = GetReturned r" and d: "py_get r ''data'' (PList []) = Some (PList d)"
    and ne: "d \<noteq> []" and nn: "no_next r = Some False"
    by (auto simp: full_page_def is_page_def data_of_def next_missing_def
             split: page_result.splits option.splits pyval.splits)
  then show ?thesis by (simp add: data_of_def get_all_pages_loop.simps)
qed

lemma loop_last_page:
  assumes "last_page p"
  shows "get_all_pages_loop pp (p # rest) off acc reqs
       = \<lparr> result = Returned (acc @ data_of p), requests = reqs @ [(pp, off)] \<rparr>"
proof -
  from assms obtain r d where p: "p = GetReturned r" and d: "py_get r ''data'' (PList []) = Some (PList d)"
    and l: "d = [] \<or> no_next r = Some True"
    by (auto simp: last_page_def is_page_def data_of_def next_missing_def
             split: page_result.splits option.splits pyval.splits)
  then show ?thesis by (auto simp: data_of_def get_all_pages_loop.simps)
qed

lemma loop_pages:
  assumes "\<forall>p \<in> set full. full_page p" "last_page l"
  shows "get_all_pages_loop pp (full @ l # rest) off acc reqs
       = \<lparr> result = Returned (acc @ concat (map data_of (full @ [l]))),
           requests = reqs @ map (Pair pp) (offsets_from off (full @ [l])) \<rparr>"
  using assms(1)
proof (induction full arbitrary: off acc reqs)
  case Nil
  then show ?case by (simp add: loop_last_page [OF assms(2)])
next
  case (Cons p full)
  then have "full_page p" and "\<forall>p \<in> set full. full_page p" by simp_all
  from loop_full_page [OF this(1)] Cons.IH [OF this(2)] show ?case by simp
qed

subsection \<open>Pagination\<close>

text \<open>
  Claim C3. Let the calls of \<open>get\<close> return full pages (a non-empty \<open>data\<close> list and a
  non-empty \<open>links.next\<close>) followed by a last page (no data items, or \<open>links.next\<close> absent
  or empty). Then \<open>get_all_pages\<close> makes exactly one request per page up to that last
  page and none after it, each with \<open>per_page\<close> capped at 100 and with the offset that
  starts at 0 and grows by the number of items of each page; and it returns the
  concatenation of the pages' data in page order, to which an empty last page adds
  nothing. A response without \<open>links\<close>, without \<open>links.next\<close>, or with an empty or null
  \<open>links.next\<close> has no next page.
\<close>

theorem get_all_pages_concatenates:
  assumes "\<forall>p \<in> set full. full_page p" and "last_page l"
  shows "get_all_pages per_page (full @ l # rest)
         = \<lparr> result = Returned (concat (map data_of (full @ [l]))),
             requests = map (Pair (min per_page 100)) (offsets_from 0 (full @ [l])) \<rparr>
       \<and> length (requests (get_all_pages per_page (full @ l # rest))) = Suc (length full)
       \<and> (data_of l = [] \<longrightarrow>
            result (get_all_pages per_page (full @ l # rest)) = Returned (concat (map data_of full)))
       \<and> no_next (PDict [(''data'', d)]) = Some True
       \<and> no_next (PDict [(''data'', d), (''links'', PDict [])]) = Some True
       \<and> no_next (PDict [(''data'', d), (''links'', PDict [(''next'', PStr [])])]) = Some True
       \<and> no_next (PDict [(''data'', d), (''links'', PDict [(''next'', PNone)])]) = Some True
       \<and> (u \<noteq> [] \<longrightarrow> no_next (PDict [(''data'', d), (''links'', PDict [(''next'', PStr u)])]) = Some False)"
proof -
  have run: "get_all_pages per_page (full @ l # rest)
         = \<lparr> result = Returned (concat (map data_of (full @ [l]))),
             requests = map (Pair (min per_page 100)) (offsets_from 0 (full @ [l])) \<rparr>"
    using loop_pages [OF assms, of "min per_page 100" rest 0 "[]" "[]"]
    by (simp add: get_all_pages_def)
  have len: "length (offsets_from off ps) = length ps" for off ps
    by (induction ps arbitrary: off) simp_all
  show ?thesis
    unfolding run by (simp add: len no_next_def)
qed

theorem get_all_pages_concatenates_witness:
  "get_all_pages 250
     ([api_page [PInt 1, PInt 2] (PStr ''/next''), api_page [PInt 3] (PStr ''/next'')]
        @ api_page [] (PStr ''/next'') # [api_page [PInt 9] PNone])
   = \<lparr> result = Returned [PInt 1, PInt 2, PInt 3], requests = [(100, 0), (100, 2), (100, 3)] \<rparr>"
proof -
  have 1: "\<forall>p \<in> set [api_page [PInt 1, PInt 2] (PStr ''/next''), api_page [PInt 3] (PStr ''/next'')].
             full_page p"
    by (simp add: full_page_def is_page_def data_of_def next_missing_def api_page_def no_next_def)
  have 2: "last_page (api_page [] (PStr ''/next''))"
    by (simp add: last_page_def is_page_def data_of_def api_page_def)
  from get_all_pages_concatenates [OF 1 2, of 250 "[api_page [PInt 9] PNone]"]
  show ?thesis by (simp add: data_of_def api_page_def)
qed

section \<open>Sync orchestrator: \<open>DataSyncService.run_sync\<close>\<close>

subsection \<open>The job record (\<open>models/refresh_job.py\<close>)\<close>

datatype job_status = JPending | JRunning | JCompleted | JFailed

text \<open>The fields the run writes; the three timestamps are left out.\<close>

record refresh_job =
  status :: job_status
  total_endpoints :: "nat option"
  completed_endpoints :: nat
  current_endpoint :: "string option"
  records_fetched :: nat
  error_message :: "string option"






subsection \<open>The collaborators\<close>







subsection \<open>The steps\<close>









subsection \<open>What fails a run\<close>





subsection \<open>The runs, case by case\<close>



subsection \<open>What fails the run\<close>




section \<open>Physical-type inference (\<open>generate_dtype_mapping\<close>)\<close>

subsection \<open>Columns\<close>

text \<open>
  A column of a DataFrame: its name, its pandas dtype and its values. The dtypes the code
  tests are \<open>object\<close>, \<open>bool\<close>, \<open>int64\<close>, \<open>Int64\<close>, \<open>float64\<close> and \<open>Float64\<close>; every other
  dtype is \<open>DOtherType\<close>.
\<close>

datatype dtype = DObject | DBool | DInt64 | DInt64N | DFloat64 | DFloat64N | DOtherType



subsection \<open>Library functions\<close>



text \<open>\<open>s.endswith(suf)\<close>.\<close>

definition endswith :: "string \<Rightarrow> string \<Rightarrow> bool" where
  "endswith s suf = prefix (rev suf) (rev s)"


text \<open>\<open>Series.dropna()\<close> and \<open>head(n)\<close>.\<close>

definition dropna :: "pyval list \<Rightarrow> pyval list" where
  "dropna vs = filter (\<lambda>v. \<not> py_isna v) vs"




subsection \<open>The inference for one column\<close>








subsection \<open>Properties of the name tests and of \<open>unique\<close>\<close>






subsection \<open>Precedence of the rules\<close>



section \<open>Timezone normalization (\<open>convert_timestamps_to_timezone\<close>)\<close>

subsection \<open>Series and the library\<close>

text \<open>
  A column is an \<open>object\<close> column of Python values, a datetime column, or a column of
  another dtype. A datetime column has a timezone (\<open>None\<close> when naive) and holds instants,
  counted from the epoch, with \<open>None\<close> for NaT: converting between timezones changes the
  timezone and leaves the instants as they are, and a naive column is read as UTC.
\<close>

datatype series =
    ObjectSeries "pyval list"
  | DatetimeSeries "string option" "int option list"
  | OtherSeries "pyval list"

text \<open>
  The library functions the repository does not define are parameters:
  \<open>to_datetime vs\<close> is \<open>pd.to_datetime(vs, errors='coerce', utc=True)\<close>, the instants it
  parses (\<open>None\<close> for a value it cannot parse) or \<open>None\<close> when it raises, and
  \<open>known_timezone z\<close> tells whether \<open>pytz.timezone(z)\<close> returns.
\<close>

record pandas =
  to_datetime :: "pyval list \<Rightarrow> int option list option"
  known_timezone :: "string \<Rightarrow> bool"

text \<open>\<open>df[col].isna().all()\<close>.\<close>

fun all_na :: "series \<Rightarrow> bool" where
  "all_na (ObjectSeries vs) = list_all py_isna vs"
| "all_na (DatetimeSeries tz ts) = list_all (\<lambda>t. t = None) ts"
| "all_na (OtherSeries vs) = list_all py_isna vs"

text \<open>\<open>s.count(c)\<close> for a character.\<close>

definition count_char :: "char \<Rightarrow> string \<Rightarrow> nat" where
  "count_char c s = length (filter (\<lambda>x. x = c) s)"

subsection \<open>The two tests on sampled values\<close>

text \<open>
  The test on the texts of the first ten sampled values; \<open>len(s.split('-')) >= 3\<close> holds
  when the text has at least two hyphens.
\<close>

definition looks_like_timestamp :: "string list \<Rightarrow> bool" where
  "looks_like_timestamp sample_strs =
     list_ex (\<lambda>s. CHR ''T'' \<in> set s
                 \<or> (CHR '':'' \<in> set s \<and> 15 < length s)
                 \<or> endswith s ''Z''
                 \<or> (CHR ''-'' \<in> set s \<and> 2 \<le> count_char CHR ''-'' s \<and> CHR '':'' \<in> set s))
       sample_strs"

definition has_time_info :: "(pyval \<Rightarrow> string) \<Rightarrow> pyval list \<Rightarrow> bool" where
  "has_time_info rp vals =
     list_ex (\<lambda>val. CHR ''T'' \<in> set (py_str rp val)
                   \<or> CHR '':'' \<in> set (py_str rp val)
                   \<or> endswith (py_str rp val) ''Z''
                   \<or> (case val of
                         PStr v \<Rightarrow> 15 < length v \<or> (CHR ''-'' \<in> set v \<and> 2 \<le> count_char CHR '':'' v)
                       | _ \<Rightarrow> False))
       vals"

subsection \<open>The conversion\<close>

text \<open>
  The body of the loop over the columns. An exception inside either \<open>try\<close> leaves the
  column as it is. The test \<open>success_rate >= 0.7\<close> on the quotient of two counts of at
  most 50 is the same as \<open>7 * len(sample) <= 10 * parsed.notna().sum()\<close>.
\<close>

definition convert_series :: "pandas \<Rightarrow> (pyval \<Rightarrow> string) \<Rightarrow> string \<Rightarrow> series \<Rightarrow> series" where
  "convert_series P rp target_tz s =
     (if all_na s then s
      else
        (case s of
           DatetimeSeries tz ts \<Rightarrow> DatetimeSeries (Some target_tz) ts
         | ObjectSeries vs \<Rightarrow>
             (let sample = take 50 (dropna vs) in
              if sample = [] then s
              else if \<not> looks_like_timestamp (map (py_str rp) (take 10 sample)) then s
              else
                (case to_datetime P sample of
                   None \<Rightarrow> s
                 | Some parsed \<Rightarrow>
                     if 7 * length sample \<le> 10 * length (filter (\<lambda>t. t \<noteq> None) parsed) then
                       (if has_time_info rp (take 10 sample) then
                          (case to_datetime P vs of
                             None \<Rightarrow> s
                           | Some parsed_full \<Rightarrow>
                               if 0 < length (filter (\<lambda>t. t \<noteq> None) parsed_full)
                               then DatetimeSeries (Some target_tz) parsed_full
                               else s)
                        else s)
                     else s))
         | OtherSeries vs \<Rightarrow> s))"

text \<open>
  The function on a table, given as its columns in order (with distinct names); \<open>None\<close>
  when \<open>pytz.timezone\<close> raises. The name of the table is only logged.
\<close>

definition convert_timestamps_to_timezone ::
  "pandas \<Rightarrow> (pyval \<Rightarrow> string) \<Rightarrow> (string \<times> series) list \<Rightarrow> string
     \<Rightarrow> (string \<times> series) list option" where
  "convert_timestamps_to_timezone P rp df target_timezone =
     (if known_timezone P target_timezone
      then Some (map (\<lambda>(col, s). (col, convert_series P rp target_timezone s)) df)
      else None)"

subsection \<open>Converting twice\<close>

lemma convert_series_result:
  "convert_series P rp tz s = s
   \<or> (\<exists>ts. convert_series P rp tz s = DatetimeSeries (Some tz) ts \<and> \<not> list_all (\<lambda>t. t = None) ts)"
proof (cases s)
  case (ObjectSeries vs)
  have "\<not> list_all (\<lambda>t. t = None) ts" if "0 < length (filter (\<lambda>t. t \<noteq> None) ts)" for ts :: "int option list"
    using that by (induction ts) auto
  then show ?thesis
    using ObjectSeries by (auto simp: convert_series_def Let_def split: option.splits)
next
  case (DatetimeSeries z ts)
  then show ?thesis by (simp add: convert_series_def)
next
  case (OtherSeries vs)
  then show ?thesis by (simp add: convert_series_def)
qed

lemma convert_series_idem:
  "convert_series P rp tz (convert_series P rp tz s) = convert_series P rp tz s"
proof -
  from convert_series_result [of P rp tz s] show ?thesis
  proof
    assume "convert_series P rp tz s = s"
    then show ?thesis by simp
  next
    assume "\<exists>ts. convert_series P rp tz s = DatetimeSeries (Some tz) ts \<and> \<not> list_all (\<lambda>t. t = None) ts"
    then obtain ts where r: "convert_series P rp tz s = DatetimeSeries (Some tz) ts"
      and n: "\<not> list_all (\<lambda>t. t = None) ts" by (elim exE conjE)
    have "convert_series P rp tz (DatetimeSeries (Some tz) ts) = DatetimeSeries (Some tz) ts"
      using n by (simp add: convert_series_def)
    with r show ?thesis by simp
  qed
qed

text \<open>A parser for the example: every string parses, to an instant given by its length.\<close>

definition pandas0 :: pandas where
  "pandas0 =
     \<lparr> to_datetime = (\<lambda>vs. Some (map (\<lambda>v. case v of PStr s \<Rightarrow> Some (int (length s)) | _ \<Rightarrow> None) vs)),
       known_timezone = (\<lambda>z. True) \<rparr>"

definition events_table :: "(string \<times> series) list" where
  "events_table =
     [(''starts_at'', ObjectSeries [PStr ''2024-01-01T10:00:00Z'', PNone]),
      (''name'', ObjectSeries [PStr ''Sunday'', PStr ''Midweek'']),
      (''ends_at'', DatetimeSeries None [Some 5, None])]"

text \<open>
  Claim C8. Converting a table that was already converted to the same timezone gives the
  same table: every column that the first conversion turned into, or kept as, a datetime
  column keeps its instants and its timezone, and every other column is left as it is.
\<close>

theorem convert_timestamps_idempotent:
  assumes "convert_timestamps_to_timezone P rp df tz = Some df'"
  shows "convert_timestamps_to_timezone P rp df' tz = Some df'"
proof -
  from assms have k: "known_timezone P tz"
    and df': "df' = map (\<lambda>(col, s). (col, convert_series P rp tz s)) df"
    by (auto simp: convert_timestamps_to_timezone_def split: if_splits)
  have "map (\<lambda>(col, s). (col, convert_series P rp tz s)) df' = df'"
    unfolding df' by (induction df) (auto simp: convert_series_idem)
  with k show ?thesis by (simp add: convert_timestamps_to_timezone_def)
qed

theorem convert_timestamps_idempotent_witness:
  "convert_timestamps_to_timezone pandas0 (\<lambda>v. []) events_table ''US/Central''
     = Some [(''starts_at'', DatetimeSeries (Some ''US/Central'') [Some 20, None]),
             (''name'', ObjectSeries [PStr ''Sunday'', PStr ''Midweek'']),
             (''ends_at'', DatetimeSeries (Some ''US/Central'') [Some 5, None])]
   \<and> convert_timestamps_to_timezone pandas0 (\<lambda>v. [])
        [(''starts_at'', DatetimeSeries (Some ''US/Central'') [Some 20, None]),
         (''name'', ObjectSeries [PStr ''Sunday'', PStr ''Midweek'']),
         (''ends_at'', DatetimeSeries (Some ''US/Central'') [Some 5, None])] ''US/Central''
     = Some [(''starts_at'', DatetimeSeries (Some ''US/Central'') [Some 20, None]),
             (''name'', ObjectSeries [PStr ''Sunday'', PStr ''Midweek'']),
             (''ends_at'', DatetimeSeries (Some ''US/Central'') [Some 5, None])]"
proof -
  have 1: "convert_timestamps_to_timezone pandas0 (\<lambda>v. []) events_table ''US/Central''
     = Some [(''starts_at'', DatetimeSeries (Some ''US/Central'') [Some 20, None]),
             (''name'', ObjectSeries [PStr ''Sunday'', PStr ''Midweek'']),
             (''ends_at'', DatetimeSeries (Some ''US/Central'') [Some 5, None])]"
    by (simp add: convert_timestamps_to_timezone_def convert_series_def pandas0_def events_table_def
        dropna_def looks_like_timestamp_def has_time_info_def endswith_def count_char_def)
  from convert_timestamps_idempotent [OF 1] 1 show ?thesis by simp
qed


end
